theory Spec2Isabelle
  imports Complex_Main
begin

section \<open>Values, exceptions and library functions\<close>

text \<open>
  The metadata that the orchestration service returns is parsed JSON. A JSON object is
  kept as an association list, in the order of the document (a Python \<open>dict\<close> iterates in
  insertion order); a Python \<open>dict\<close> has no duplicate keys, and a lookup in the list takes
  the first entry of a key. Strings are ASCII. Python floats are idealised as reals: no
  rounding, no infinities.
\<close>

datatype json =
    JNull
  | JBool bool
  | JInt int
  | JFloat real
  | JStr string
  | JArr "json list"
  | JObj "(string \<times> json) list"

type_synonym call_metadata = "(string \<times> json) list"

text \<open>
  The exceptions that the code of \<open>workflows.py\<close> can raise. \<open>KeyError\<close> and
  \<open>TNUCostException\<close> carry their first argument (\<open>exc.args[0]\<close>), the message.
  \<open>HTTPError\<close> is what \<open>resp.raise_for_status()\<close> raises.
\<close>

datatype exn =
    KeyError string
  | TNUCostException string
  | ValueError
  | TypeError
  | AttributeError
  | IndexError
  | HTTPError

text \<open>
  What \<open>workflows.py\<close> uses and does not define: the conversions \<open>int\<close> and \<open>float\<close> of
  Python on a \<open>str\<close> (\<open>None\<close> stands for \<open>ValueError\<close>), \<open>datetime.strptime\<close> with
  \<open>date_format\<close> (\<open>None\<close> for \<open>ValueError\<close>; a datetime is its number of seconds since a
  fixed origin, so that \<open>(end - start).total_seconds()\<close> is a difference), and the four
  estimators of the module \<open>costs\<close>. They are parameters of the model.
\<close>

record env =
  int_of_str :: "string \<Rightarrow> int option"
  float_of_str :: "string \<Rightarrow> real option"
  strptime :: "string \<Rightarrow> real option"
  PersistentDisk_estimate :: "real \<Rightarrow> real \<Rightarrow> real"
  LocalSSDDisk_estimate :: "real \<Rightarrow> real \<Rightarrow> real"
  GCPCustomN1Cost_estimate :: "int \<Rightarrow> real \<Rightarrow> real \<Rightarrow> bool \<Rightarrow> real"
  GCPCustomN2Cost_estimate :: "int \<Rightarrow> real \<Rightarrow> real \<Rightarrow> bool \<Rightarrow> real"

definition bind :: "exn + 'a \<Rightarrow> ('a \<Rightarrow> exn + 'b) \<Rightarrow> exn + 'b" where
  "bind m f = (case m of Inl e \<Rightarrow> Inl e | Inr x \<Rightarrow> f x)"

subsection \<open>String methods\<close>

text \<open>\<open>s.startswith(p)\<close> and \<open>s.endswith(p)\<close>.\<close>

definition startswith :: "string \<Rightarrow> string \<Rightarrow> bool" where
  "startswith s p = (take (length p) s = p)"

definition endswith :: "string \<Rightarrow> string \<Rightarrow> bool" where
  "endswith s p = (length p \<le> length s \<and> drop (length s - length p) s = p)"

text \<open>
  \<open>s.replace(old, new)\<close> for a non-empty \<open>old\<close>: the occurrences of \<open>old\<close> are replaced
  from left to right, without overlap.
\<close>

function replace :: "string \<Rightarrow> string \<Rightarrow> string \<Rightarrow> string" where
  "replace old new [] = []"
| "replace old new (c # cs) =
     (if old \<noteq> [] \<and> startswith (c # cs) old
      then new @ replace old new (drop (length old) (c # cs))
      else c # replace old new cs)"
  by pat_completeness auto
termination
  by (relation "measure (\<lambda>(old, new, s). length s)") auto

text \<open>
  \<open>s.split(sep)\<close> for a separator of one character: the pieces between the separators,
  empty pieces included; and \<open>s.split(sep, maxsplit)\<close>, which splits at the first
  \<open>maxsplit\<close> separators only.
\<close>

fun split_sep :: "char \<Rightarrow> string \<Rightarrow> string list" where
  "split_sep sep [] = [[]]"
| "split_sep sep (c # cs) =
     (if c = sep then [] # split_sep sep cs
      else (case split_sep sep cs of p # ps \<Rightarrow> (c # p) # ps | [] \<Rightarrow> [[c]]))"

fun split_max :: "char \<Rightarrow> nat \<Rightarrow> string \<Rightarrow> string list" where
  "split_max sep 0 s = [s]"
| "split_max sep (Suc n) [] = [[]]"
| "split_max sep (Suc n) (c # cs) =
     (if c = sep then [] # split_max sep n cs
      else (case split_max sep (Suc n) cs of p # ps \<Rightarrow> (c # p) # ps | [] \<Rightarrow> [[c]]))"

text \<open>
  \<open>s.split()\<close> without a separator: the maximal runs of characters that are not
  whitespace. On ASCII, \<open>str.isspace\<close> holds of the codes 9 to 13, 28 to 31 and 32.
\<close>

definition isspace :: "char \<Rightarrow> bool" where
  "isspace c = (let n = of_char c :: nat in (9 \<le> n \<and> n \<le> 13) \<or> (28 \<le> n \<and> n \<le> 32))"

fun split_ws :: "string \<Rightarrow> string list" where
  "split_ws [] = []"
| "split_ws (c # cs) =
     (if isspace c then split_ws cs
      else (case cs of
              [] \<Rightarrow> [[c]]
            | d # ds \<Rightarrow>
                if isspace d then [c] # split_ws cs
                else (case split_ws cs of p # ps \<Rightarrow> (c # p) # ps | [] \<Rightarrow> [[c]])))"

text \<open>\<open>p in s\<close>: the string \<open>p\<close> occurs in \<open>s\<close>.\<close>

fun contains :: "string \<Rightarrow> string \<Rightarrow> bool" where
  "contains [] p = (p = [])"
| "contains (c # cs) p = (startswith (c # cs) p \<or> contains cs p)"

section \<open>The machine-type parser\<close>

text \<open>
  \<^verbatim>\<open>
  def _parse_machine_type(machine_type: str) -> Tuple[int, float]:
      # remove 'n2d-' prefix if there
      machine_type = machine_type.replace('n2d-', '')
      parts = machine_type.split("-", 2)
      if 3 != len(parts) or "custom" != parts[0]:
          raise TNUCostException(f"Cannot estimate costs for machine type '{machine_type}'"
                                 "Please contact terra-notebook-utils maintainers to add support")
      try:
          cpus, memory_gb = int(parts[1]), float(parts[2]) / 1024
          return cpus, memory_gb
      except ValueError as exc:
          raise TNUCostException(f"Cannot parse cpus and memory from '{machine_type}'") from exc
  \<close>
\<close>

definition quoted :: "string \<Rightarrow> string" where
  "quoted s = [CHR 0x27] @ s @ [CHR 0x27]"

definition parse_machine_type :: "env \<Rightarrow> string \<Rightarrow> exn + (int \<times> real)" where
  "parse_machine_type E machine_type0 =
     (let machine_type = replace ''n2d-'' '''' machine_type0;
          parts = split_max CHR ''-'' 2 machine_type
      in if 3 \<noteq> length parts \<or> ''custom'' \<noteq> parts ! 0
         then Inl (TNUCostException
                (''Cannot estimate costs for machine type '' @ quoted machine_type @
                 ''Please contact terra-notebook-utils maintainers to add support''))
         else (case int_of_str E (parts ! 1) of
                 None \<Rightarrow> Inl (TNUCostException
                              (''Cannot parse cpus and memory from '' @ quoted machine_type))
               | Some cpus \<Rightarrow>
                   (case float_of_str E (parts ! 2) of
                      None \<Rightarrow> Inl (TNUCostException
                                   (''Cannot parse cpus and memory from '' @ quoted machine_type))
                    | Some m \<Rightarrow> Inr (cpus, m / 1024))))"

section \<open>The task cost estimator\<close>

text \<open>
  Modelled from the spec: \<open>js_get\<close> of \<open>terra_notebook_utils.utils\<close> is not part of the
  sources at hand. The spec describes it as a structured-field accessor that reads a
  dotted path out of nested key-value metadata, returns a provided default if any segment
  is absent, and fails with a "required field missing" error if no default was given and
  the path is absent. The estimator catches that error as \<open>KeyError\<close>; the text of its
  message is not specified, the model takes the path.
\<close>

fun js_lookup :: "string list \<Rightarrow> json \<Rightarrow> json option" where
  "js_lookup [] v = Some v"
| "js_lookup (k # ks) (JObj kvs) =
     (case map_of kvs k of None \<Rightarrow> None | Some v \<Rightarrow> js_lookup ks v)"
| "js_lookup (k # ks) _ = None"

definition js_get :: "string \<Rightarrow> call_metadata \<Rightarrow> json option \<Rightarrow> exn + json" where
  "js_get path data dflt =
     (case js_lookup (split_sep CHR ''.'' path) (JObj data) of
        Some v \<Rightarrow> Inr v
      | None \<Rightarrow> (case dflt of Some d \<Rightarrow> Inr d | None \<Rightarrow> Inl (KeyError path)))"

text \<open>
  \<open>int(x)\<close> for a JSON value \<open>x\<close>: a \<open>bool\<close> is 0 or 1, a \<open>float\<close> is truncated towards
  zero, a \<open>str\<close> is parsed, anything else is a \<open>TypeError\<close>. And
  \<open>datetime.strptime(x, date_format)\<close>, a \<open>TypeError\<close> unless \<open>x\<close> is a \<open>str\<close>.
\<close>

definition py_int :: "env \<Rightarrow> json \<Rightarrow> exn + int" where
  "py_int E x =
     (case x of
        JBool b \<Rightarrow> Inr (if b then 1 else 0)
      | JInt i \<Rightarrow> Inr i
      | JFloat r \<Rightarrow> Inr (if 0 \<le> r then \<lfloor>r\<rfloor> else \<lceil>r\<rceil>)
      | JStr s \<Rightarrow> (case int_of_str E s of None \<Rightarrow> Inl ValueError | Some i \<Rightarrow> Inr i)
      | _ \<Rightarrow> Inl TypeError)"

definition py_strptime :: "env \<Rightarrow> json \<Rightarrow> exn + real" where
  "py_strptime E x =
     (case x of
        JStr s \<Rightarrow> (case strptime E s of None \<Rightarrow> Inl ValueError | Some t \<Rightarrow> Inr t)
      | _ \<Rightarrow> Inl TypeError)"

text \<open>
  The record that the estimator yields. \<open>preempted\<close> is the string \<open>"NA"\<close> or a \<open>bool\<close>,
  \<open>machine_type\<close> is \<open>"NA"\<close> or the machine-type string of the metadata.
\<close>

record cost_record =
  task_name :: string
  cost :: real
  number_of_cpus :: int
  memory :: real
  disk :: real
  duration :: real
  call_cached :: bool
  preempted :: json
  machine_type :: string

text \<open>
  The body of the \<open>try\<close> block (lines 73 to 116), for one call attempt: the record it
  yields, or the exception it raises. The steps are in the order of the source, so that
  the first failure is the one the source meets first.
  \<^verbatim>\<open>
  task_name = call_name.split(".")[1]
  call_cached = bool(int(js_get("callCaching.hit", call_metadata, default=0)))
  preempted = machine_type = "NA"
  if call_cached:
      cost, cpus, memory_gb, runtime, disk_size_gb = 0.0, 0, 0.0, 0.0, 0.0
  else:
      machine_type = js_get("jes.machineType", call_metadata)
      cpus, memory_gb = _parse_machine_type(machine_type)
      start = datetime.strptime(js_get("start", call_metadata), date_format)
      end = datetime.strptime(js_get("end", call_metadata), date_format)
      runtime = (end - start).total_seconds()
      preemptible = bool(int(js_get("runtimeAttributes.preemptible", call_metadata)))
      backendStatus = js_get("backendStatus", call_metadata)
      if preemptible:
          preempted = backendStatus == "Preempted"
      disk_description = js_get("runtimeAttributes.disks", call_metadata, default="")
      if disk_description.startswith("local-disk"):
          _, size_gb, _ = disk_description.split()
          disk_size_gb = float(size_gb)
      else:
          disk_size_gb = 1.0
      cost_disk = costs.PersistentDisk.estimate(disk_size_gb, runtime)
      if disk_description.endswith("LOCAL"):
          cost_disk = costs.LocalSSDDisk.estimate(disk_size_gb, runtime)
      cpuplatform_description = js_get("runtimeAttributes.cpuPlatform", call_metadata, default="")
      cost_instance = costs.GCPCustomN1Cost.estimate(cpus, memory_gb, runtime, preemptible)
      if cpuplatform_description in ["Intel Cascade Lake", "AMD Rome"]:
          cost_instance = costs.GCPCustomN2Cost.estimate(cpus, memory_gb, runtime, preemptible)
      cost = cost_instance + cost_disk
  yield dict(task_name=task_name, cost=cost, number_of_cpus=cpus, memory=memory_gb,
             disk=disk_size_gb, duration=runtime, call_cached=call_cached,
             preempted=preempted, machine_type=machine_type)
  \<close>
\<close>

definition task_name_of :: "string \<Rightarrow> exn + string" where
  "task_name_of call_name =
     (case split_sep CHR ''.'' call_name of
        _ # t # _ \<Rightarrow> Inr t
      | _ \<Rightarrow> Inl IndexError)"

definition disk_size_of :: "env \<Rightarrow> string \<Rightarrow> exn + real" where
  "disk_size_of E disk_description =
     (if startswith disk_description ''local-disk''
      then (case split_ws disk_description of
              [_, size_gb, _] \<Rightarrow>
                (case float_of_str E size_gb of None \<Rightarrow> Inl ValueError | Some x \<Rightarrow> Inr x)
            | _ \<Rightarrow> Inl ValueError)
      else Inr 1)"

definition disk_cost :: "env \<Rightarrow> string \<Rightarrow> real \<Rightarrow> real \<Rightarrow> real" where
  "disk_cost E disk_description disk_size_gb runtime =
     (if endswith disk_description ''LOCAL''
      then LocalSSDDisk_estimate E disk_size_gb runtime
      else PersistentDisk_estimate E disk_size_gb runtime)"

definition instance_cost :: "env \<Rightarrow> json \<Rightarrow> int \<Rightarrow> real \<Rightarrow> real \<Rightarrow> bool \<Rightarrow> real" where
  "instance_cost E cpuplatform_description cpus memory_gb runtime preemptible =
     (if cpuplatform_description \<in> {JStr ''Intel Cascade Lake'', JStr ''AMD Rome''}
      then GCPCustomN2Cost_estimate E cpus memory_gb runtime preemptible
      else GCPCustomN1Cost_estimate E cpus memory_gb runtime preemptible)"

definition estimate_call :: "env \<Rightarrow> string \<Rightarrow> call_metadata \<Rightarrow> exn + cost_record" where
  "estimate_call E call_name md =
     bind (task_name_of call_name) (\<lambda>tn.
     bind (js_get ''callCaching.hit'' md (Some (JInt 0))) (\<lambda>hit.
     bind (py_int E hit) (\<lambda>h.
     if h \<noteq> 0
     then Inr \<lparr>task_name = tn, cost = 0, number_of_cpus = 0, memory = 0, disk = 0,
               duration = 0, call_cached = True, preempted = JStr ''NA'',
               machine_type = ''NA''\<rparr>
     else
       bind (js_get ''jes.machineType'' md None) (\<lambda>mt.
       case mt of
         JStr mtype \<Rightarrow>
           bind (parse_machine_type E mtype) (\<lambda>(cpus, memory_gb).
           bind (js_get ''start'' md None) (\<lambda>s.
           bind (py_strptime E s) (\<lambda>start.
           bind (js_get ''end'' md None) (\<lambda>e.
           bind (py_strptime E e) (\<lambda>end'.
           let runtime = end' - start in
           bind (js_get ''runtimeAttributes.preemptible'' md None) (\<lambda>p.
           bind (py_int E p) (\<lambda>pn.
           let preemptible = (pn \<noteq> 0) in
           bind (js_get ''backendStatus'' md None) (\<lambda>backendStatus.
           let preempted = (if preemptible then JBool (backendStatus = JStr ''Preempted'')
                            else JStr ''NA'') in
           bind (js_get ''runtimeAttributes.disks'' md (Some (JStr ''''))) (\<lambda>dd.
           case dd of
             JStr disk_description \<Rightarrow>
               bind (disk_size_of E disk_description) (\<lambda>disk_size_gb.
               let cost_disk = disk_cost E disk_description disk_size_gb runtime in
               bind (js_get ''runtimeAttributes.cpuPlatform'' md (Some (JStr ''''))) (\<lambda>cp.
               let cost_instance = instance_cost E cp cpus memory_gb runtime preemptible in
               Inr \<lparr>task_name = tn, cost = cost_instance + cost_disk,
                    number_of_cpus = cpus, memory = memory_gb, disk = disk_size_gb,
                    duration = runtime, call_cached = False, preempted = preempted,
                    machine_type = mtype\<rparr>))
           | _ \<Rightarrow> Inl AttributeError)))))))))
       | _ \<Rightarrow> Inl AttributeError))))"

text \<open>
  The generator. What a consumer sees of it is the sequence of records it yields and of
  warnings it logs, and the exception that ends it, if one does. A workflow's metadata is
  its \<open>calls\<close> table: the call names in the order of the \<open>dict\<close>, each with the list of its
  attempts, and an attempt is a JSON object. Metadata of another shape (no \<open>calls\<close>, or
  a value that is not a table of lists of objects) is not an input of the model.
  \<^verbatim>\<open>
  for call_name, call_metadata_list in workflow_metadata['calls'].items():
      for call_metadata in call_metadata_list:
          if "subWorkflowId" in call_metadata:
              continue
          try:
              ...
          except (KeyError, TNUCostException) as exc:
              logger.warning(f"Unable to estimate costs for workflow {workflow_id}: "
                             f"{exc.args[0]}")
  \<close>
\<close>

datatype event = Yield cost_record | Warning string

record workflow_metadata =
  calls :: "(string \<times> call_metadata list) list"

definition warning_text :: "string \<Rightarrow> string \<Rightarrow> string" where
  "warning_text workflow_id msg =
     ''Unable to estimate costs for workflow '' @ workflow_id @ '': '' @ msg"

definition is_subworkflow :: "call_metadata \<Rightarrow> bool" where
  "is_subworkflow md = (map_of md ''subWorkflowId'' \<noteq> None)"

text \<open>
  \<open>and_then a b\<close> is the output of a part of the loop followed by the output of what
  comes after it: an exception that ends the first part ends the generator, and nothing
  of the second part is seen.
\<close>

definition and_then ::
  "event list \<times> exn option \<Rightarrow> event list \<times> exn option \<Rightarrow> event list \<times> exn option" where
  "and_then a b = (case snd a of Some e \<Rightarrow> a | None \<Rightarrow> (fst a @ fst b, snd b))"

text \<open>
  The clause \<open>except (KeyError, TNUCostException) as exc\<close>: the message of an exception
  that it catches, \<open>None\<close> for an exception that it lets through.
\<close>

definition caught_message :: "exn \<Rightarrow> string option" where
  "caught_message e =
     (case e of KeyError msg \<Rightarrow> Some msg | TNUCostException msg \<Rightarrow> Some msg | _ \<Rightarrow> None)"

text \<open>One pass through the body of the inner loop, for one call attempt.\<close>

definition estimate_attempt ::
  "env \<Rightarrow> string \<Rightarrow> string \<Rightarrow> call_metadata \<Rightarrow> event list \<times> exn option" where
  "estimate_attempt E workflow_id call_name md =
     (if is_subworkflow md then ([], None)
      else (case estimate_call E call_name md of
              Inr r \<Rightarrow> ([Yield r], None)
            | Inl e \<Rightarrow>
                (case caught_message e of
                   Some msg \<Rightarrow> ([Warning (warning_text workflow_id msg)], None)
                 | None \<Rightarrow> ([], Some e))))"

fun estimate_attempts ::
  "env \<Rightarrow> string \<Rightarrow> string \<Rightarrow> call_metadata list \<Rightarrow> event list \<times> exn option" where
  "estimate_attempts E workflow_id call_name [] = ([], None)"
| "estimate_attempts E workflow_id call_name (md # rest) =
     and_then (estimate_attempt E workflow_id call_name md)
       (estimate_attempts E workflow_id call_name rest)"

fun estimate_calls ::
  "env \<Rightarrow> string \<Rightarrow> (string \<times> call_metadata list) list \<Rightarrow> event list \<times> exn option" where
  "estimate_calls E workflow_id [] = ([], None)"
| "estimate_calls E workflow_id ((call_name, call_metadata_list) # rest) =
     and_then (estimate_attempts E workflow_id call_name call_metadata_list)
       (estimate_calls E workflow_id rest)"

definition estimate_workflow_cost ::
  "env \<Rightarrow> string \<Rightarrow> workflow_metadata \<Rightarrow> event list \<times> exn option" where
  "estimate_workflow_cost E workflow_id wm = estimate_calls E workflow_id (calls wm)"

text \<open>
  For stating properties of the generator: the call attempts of a \<open>calls\<close> table that are
  not sub-workflow references, each with its call name, in the order of the two loops; and
  the records among the events of an output.
\<close>

definition attempts_of :: "(string \<times> call_metadata list) list \<Rightarrow> (string \<times> call_metadata) list" where
  "attempts_of cs = concat (map (\<lambda>(n, l). map (Pair n) (filter (\<lambda>a. \<not> is_subworkflow a) l)) cs)"

definition records :: "event list \<Rightarrow> cost_record list" where
  "records evs = concat (map (\<lambda>ev. case ev of Yield r \<Rightarrow> [r] | Warning _ \<Rightarrow> []) evs)"

section \<open>The metadata fetcher\<close>

text \<open>
  The orchestration service is outside the program: \<open>fiss.fapi.get_submission\<close> and
  \<open>fiss.fapi.get_workflow_metadata\<close> send a request, and \<open>resp.raise_for_status()\<close> raises
  unless the status is a success. The service is a parameter of the model: what it
  answers to a request, given the number of requests made before (its answers may change
  with time); \<open>None\<close> is a status that is not a success. A submission is its list of
  workflow entries, a workflow's metadata its table of calls. The process keeps the list
  of the requests it has made, each with its outcome.
\<close>

record submission =
  workflows :: "call_metadata list"

datatype request =
    Get_submission "string option" "string option" string
  | Get_workflow_metadata "string option" "string option" string json

record service =
  submission_response :: "nat \<Rightarrow> string option \<Rightarrow> string option \<Rightarrow> string \<Rightarrow> submission option"
  workflow_response ::
    "nat \<Rightarrow> string option \<Rightarrow> string option \<Rightarrow> string \<Rightarrow> json \<Rightarrow> workflow_metadata option"

type_synonym network = "(request \<times> bool) list"

text \<open>
  \<open>functools.lru_cache\<close> with a positive \<open>maxsize\<close>, around a function \<open>f\<close> of one (tupled)
  argument that reads and changes a world \<open>w\<close>. The cache lists its entries from the most
  recently used to the least recently used. A hit moves the entry to the front and
  returns its value without calling \<open>f\<close>. A miss calls \<open>f\<close>; an exception of \<open>f\<close> is passed
  on and nothing is stored; a result is stored in front, and when the cache is full
  (\<open>maxsize\<close> entries) the least recently used entry is dropped. The decorator
  \<open>@lru_cache()\<close> of the source is \<open>lru_cache(maxsize=128, typed=False)\<close>.
\<close>

definition lru_cache ::
  "nat \<Rightarrow> ('k \<Rightarrow> 'w \<Rightarrow> (exn + 'v) \<times> 'w) \<Rightarrow> 'k \<Rightarrow> ('k \<times> 'v) list \<times> 'w \<Rightarrow>
   (exn + 'v) \<times> ('k \<times> 'v) list \<times> 'w" where
  "lru_cache maxsize f k = (\<lambda>(cache, w).
     case map_of cache k of
       Some v \<Rightarrow> (Inr v, (k, v) # filter (\<lambda>(k', v'). k' \<noteq> k) cache, w)
     | None \<Rightarrow>
         (case f k w of
            (Inl e, w') \<Rightarrow> (Inl e, cache, w')
          | (Inr v, w') \<Rightarrow>
              (Inr v, (k, v) # (if maxsize \<le> length cache then butlast cache else cache), w')))"

type_synonym submission_args = "string \<times> string option \<times> string option"

type_synonym workflow_args = "string \<times> json \<times> string option \<times> string option"

record process =
  submission_cache :: "(submission_args \<times> submission) list"
  workflow_cache :: "(workflow_args \<times> workflow_metadata) list"
  requests :: network

definition new_process :: process where
  "new_process = \<lparr>submission_cache = [], workflow_cache = [], requests = []\<rparr>"

text \<open>
  \<^verbatim>\<open>
  @lru_cache()
  def get_submission(submission_id, workspace_name=WORKSPACE_NAME,
                     workspace_namespace=WORKSPACE_NAMESPACE) -> dict:
      resp = fiss.fapi.get_submission(workspace_namespace, workspace_name, submission_id)
      resp.raise_for_status()
      return resp.json()

  @lru_cache()
  def get_workflow(submission_id, workflow_id, workspace_name=WORKSPACE_NAME,
                   workspace_namespace=WORKSPACE_NAMESPACE) -> dict:
      resp = fiss.fapi.get_workflow_metadata(workspace_namespace, workspace_name,
                                             submission_id, workflow_id)
      resp.raise_for_status()
      return resp.json()
  \<close>
  The bodies first, then the decorated functions. The key of the cache is the tuple of
  the arguments of the call, as they are passed. What the service sends is taken to be
  JSON of the shape of a submission or of a workflow's metadata.
\<close>

definition fetch_submission ::
  "service \<Rightarrow> submission_args \<Rightarrow> network \<Rightarrow> (exn + submission) \<times> network" where
  "fetch_submission S = (\<lambda>(submission_id, workspace_name, workspace_namespace) net.
     let req = Get_submission workspace_namespace workspace_name submission_id in
     case submission_response S (length net) workspace_namespace workspace_name submission_id of
       None \<Rightarrow> (Inl HTTPError, net @ [(req, False)])
     | Some resp \<Rightarrow> (Inr resp, net @ [(req, True)]))"

definition fetch_workflow ::
  "service \<Rightarrow> workflow_args \<Rightarrow> network \<Rightarrow> (exn + workflow_metadata) \<times> network" where
  "fetch_workflow S = (\<lambda>(submission_id, workflow_id, workspace_name, workspace_namespace) net.
     let req = Get_workflow_metadata workspace_namespace workspace_name submission_id workflow_id in
     case workflow_response S (length net) workspace_namespace workspace_name submission_id
            workflow_id of
       None \<Rightarrow> (Inl HTTPError, net @ [(req, False)])
     | Some resp \<Rightarrow> (Inr resp, net @ [(req, True)]))"

definition get_submission ::
  "service \<Rightarrow> submission_args \<Rightarrow> process \<Rightarrow> (exn + submission) \<times> process" where
  "get_submission S args p =
     (case lru_cache 128 (fetch_submission S) args (submission_cache p, requests p) of
        (r, cache, net) \<Rightarrow> (r, p\<lparr>submission_cache := cache, requests := net\<rparr>))"

definition get_workflow ::
  "service \<Rightarrow> workflow_args \<Rightarrow> process \<Rightarrow> (exn + workflow_metadata) \<times> process" where
  "get_workflow S args p =
     (case lru_cache 128 (fetch_workflow S) args (workflow_cache p, requests p) of
        (r, cache, net) \<Rightarrow> (r, p\<lparr>workflow_cache := cache, requests := net\<rparr>))"

text \<open>
  A sequence of calls of the two functions in one process, for stating what the caches
  do: each call with what it returned and the state of the process after it.
\<close>

datatype call = Call_get_submission submission_args | Call_get_workflow workflow_args

datatype response = Submission "exn + submission" | Workflow "exn + workflow_metadata"

fun run_call :: "service \<Rightarrow> call \<Rightarrow> process \<Rightarrow> response \<times> process" where
  "run_call S (Call_get_submission args) p =
     (case get_submission S args p of (r, p') \<Rightarrow> (Submission r, p'))"
| "run_call S (Call_get_workflow args) p =
     (case get_workflow S args p of (r, p') \<Rightarrow> (Workflow r, p'))"

fun run_calls :: "service \<Rightarrow> call list \<Rightarrow> process \<Rightarrow> (response \<times> process) list" where
  "run_calls S [] p = []"
| "run_calls S (c # cs) p =
     (case run_call S c p of (r, p') \<Rightarrow> (r, p') # run_calls S cs p')"

definition succeeded :: "response \<Rightarrow> bool" where
  "succeeded r = (case r of Submission (Inr _) \<Rightarrow> True | Workflow (Inr _) \<Rightarrow> True | _ \<Rightarrow> False)"

text \<open>
  For the proofs: the keys of the calls of a sequence, what a call finds in its cache, and
  the invariant of a cache that has not evicted anything. In \<open>cache_inv K rq cache net\<close>,
  \<open>K\<close> is a set of keys that holds every key ever asked for, and \<open>rq\<close> gives the request
  that the function sends for a key.
\<close>

definition submission_keys :: "call list \<Rightarrow> submission_args list" where
  "submission_keys cs = concat (map (\<lambda>c. case c of Call_get_submission k \<Rightarrow> [k] | _ \<Rightarrow> []) cs)"

definition workflow_keys :: "call list \<Rightarrow> workflow_args list" where
  "workflow_keys cs = concat (map (\<lambda>c. case c of Call_get_workflow k \<Rightarrow> [k] | _ \<Rightarrow> []) cs)"

definition cached :: "process \<Rightarrow> call \<Rightarrow> response option" where
  "cached p c =
     (case c of
        Call_get_submission k \<Rightarrow>
          map_option (\<lambda>v. Submission (Inr v)) (map_of (submission_cache p) k)
      | Call_get_workflow k \<Rightarrow>
          map_option (\<lambda>v. Workflow (Inr v)) (map_of (workflow_cache p) k))"

definition cache_inv :: "'k set \<Rightarrow> ('k \<Rightarrow> request) \<Rightarrow> ('k \<times> 'v) list \<Rightarrow> network \<Rightarrow> bool" where
  "cache_inv K rq cache net \<longleftrightarrow>
     distinct (map fst cache) \<and> fst ` set cache \<subseteq> K \<and>
     (\<forall>k. (rq k, True) \<in> set net \<longrightarrow> k \<in> fst ` set cache) \<and>
     (\<forall>k. count_list net (rq k, True) \<le> 1)"

definition submission_request :: "submission_args \<Rightarrow> request" where
  "submission_request = (\<lambda>(submission_id, workspace_name, workspace_namespace).
     Get_submission workspace_namespace workspace_name submission_id)"

definition workflow_request :: "workflow_args \<Rightarrow> request" where
  "workflow_request = (\<lambda>(submission_id, workflow_id, workspace_name, workspace_namespace).
     Get_workflow_metadata workspace_namespace workspace_name submission_id workflow_id)"

definition process_inv :: "submission_args set \<Rightarrow> workflow_args set \<Rightarrow> process \<Rightarrow> bool" where
  "process_inv Ks Kw p \<longleftrightarrow>
     cache_inv Ks submission_request (submission_cache p) (requests p) \<and>
     cache_inv Kw workflow_request (workflow_cache p) (requests p)"

fun final_process :: "service \<Rightarrow> call list \<Rightarrow> process \<Rightarrow> process" where
  "final_process S [] p = p"
| "final_process S (c # cs) p = final_process S cs (snd (run_call S c p))"

definition key_in :: "submission_args set \<Rightarrow> workflow_args set \<Rightarrow> call \<Rightarrow> bool" where
  "key_in Ks Kw c = (case c of Call_get_submission k \<Rightarrow> k \<in> Ks | Call_get_workflow k \<Rightarrow> k \<in> Kw)"

section \<open>The sub-workflow discoverer\<close>

text \<open>
  A set comprehension: \<open>TypeError\<close> if an element is unhashable (a \<open>list\<close> or a \<open>dict\<close>),
  otherwise the elements, once each. (Python identifies the keys \<open>1\<close>, \<open>1.0\<close> and \<open>True\<close>;
  the model does not: the identifiers of workflows are strings.)
\<close>

definition hashable :: "json \<Rightarrow> bool" where
  "hashable v = (case v of JArr _ \<Rightarrow> False | JObj _ \<Rightarrow> False | _ \<Rightarrow> True)"

definition py_set :: "json list \<Rightarrow> exn + json list" where
  "py_set vs = (if list_all hashable vs then Inr (remdups vs) else Inl TypeError)"

text \<open>
  Modelled from the spec: \<open>concurrent_recursion\<close> of \<open>terra_notebook_utils.utils\<close> is not
  part of the sources at hand. The spec describes it as driving a breadth-first
  expansion: it invokes the expansion function for each newly discovered identifier and
  feeds the identifiers that it returns back into the frontier, until no new identifiers
  remain; how many expansions run at a time, and in which order, is left to it. The model
  runs the expansions one after the other, in the order of discovery. \<open>discovered\<close> holds
  every identifier that has ever been in the frontier; an exception of the expansion
  function is passed on. Nothing bounds the number of identifiers that the service may
  invent, so the loop takes fuel, and \<open>None\<close> is a loop that has not ended when the fuel
  has run out.
\<close>

fun expand_frontier ::
  "nat \<Rightarrow> (json \<Rightarrow> 's \<Rightarrow> (exn + json list) \<times> 's) \<Rightarrow> json list \<Rightarrow> json list \<Rightarrow> 's \<Rightarrow>
   ((exn + unit) \<times> 's) option" where
  "expand_frontier 0 recurse frontier discovered s = None"
| "expand_frontier (Suc fuel) recurse [] discovered s = Some (Inr (), s)"
| "expand_frontier (Suc fuel) recurse (i # frontier) discovered s =
     (case recurse i s of
        (Inl e, s') \<Rightarrow> Some (Inl e, s')
      | (Inr ids, s') \<Rightarrow>
          (let new = remdups (filter (\<lambda>x. x \<notin> set discovered) ids)
           in expand_frontier fuel recurse (frontier @ new) (discovered @ new) s'))"

definition concurrent_recursion ::
  "nat \<Rightarrow> (json \<Rightarrow> 's \<Rightarrow> (exn + json list) \<times> 's) \<Rightarrow> json list \<Rightarrow> 's \<Rightarrow>
   ((exn + unit) \<times> 's) option" where
  "concurrent_recursion fuel recurse initial_data s =
     expand_frontier fuel recurse (remdups initial_data) (remdups initial_data) s"

text \<open>
  \<^verbatim>\<open>
  def get_all_workflows(submission_id, workspace=WORKSPACE_NAME,
                        workspace_namespace=WORKSPACE_NAMESPACE) -> Dict[str, dict]:
      workflows_metadata = dict()

      def get_metadata_and_subworkflows(workflow_id: str):
          wf_medadata = get_workflow(submission_id, workflow_id, workspace, workspace_namespace)
          workflows_metadata[workflow_id] = wf_medadata
          subworkflows = {call_metadata['subWorkflowId']
                          for call_metadata_list in wf_medadata['calls'].values()
                          for call_metadata in call_metadata_list
                          if "subWorkflowId" in call_metadata}
          return subworkflows

      submission = get_submission(submission_id, workspace, workspace_namespace)
      initial_workflow_ids = {wf['workflowId'] for wf in submission['workflows']
                              if "workflowId" in wf}
      concurrent_recursion(get_metadata_and_subworkflows, initial_workflow_ids)

      return workflows_metadata
  \<close>
  The state of the expansion is the dictionary \<open>workflows_metadata\<close>, a map, and the
  process with its caches.
\<close>

definition subworkflow_ids :: "workflow_metadata \<Rightarrow> json list" where
  "subworkflow_ids wf_metadata =
     concat (map (\<lambda>(call_name, call_metadata_list).
       concat (map (\<lambda>call_metadata.
         case map_of call_metadata ''subWorkflowId'' of Some v \<Rightarrow> [v] | None \<Rightarrow> [])
         call_metadata_list))
       (calls wf_metadata))"

definition workflow_ids :: "submission \<Rightarrow> json list" where
  "workflow_ids submission =
     concat (map (\<lambda>wf. case map_of wf ''workflowId'' of Some v \<Rightarrow> [v] | None \<Rightarrow> [])
       (workflows submission))"

definition get_metadata_and_subworkflows ::
  "service \<Rightarrow> string \<Rightarrow> string option \<Rightarrow> string option \<Rightarrow> json \<Rightarrow>
   (json \<rightharpoonup> workflow_metadata) \<times> process \<Rightarrow>
   (exn + json list) \<times> (json \<rightharpoonup> workflow_metadata) \<times> process" where
  "get_metadata_and_subworkflows S submission_id workspace workspace_namespace workflow_id =
     (\<lambda>(workflows_metadata, p).
        case get_workflow S (submission_id, workflow_id, workspace, workspace_namespace) p of
          (Inl e, p') \<Rightarrow> (Inl e, workflows_metadata, p')
        | (Inr wf_metadata, p') \<Rightarrow>
            (py_set (subworkflow_ids wf_metadata),
             workflows_metadata(workflow_id \<mapsto> wf_metadata), p'))"

definition get_all_workflows ::
  "service \<Rightarrow> nat \<Rightarrow> string \<Rightarrow> string option \<Rightarrow> string option \<Rightarrow> process \<Rightarrow>
   ((exn + (json \<rightharpoonup> workflow_metadata)) \<times> process) option" where
  "get_all_workflows S fuel submission_id workspace workspace_namespace p =
     (case get_submission S (submission_id, workspace, workspace_namespace) p of
        (Inl e, p') \<Rightarrow> Some (Inl e, p')
      | (Inr submission, p') \<Rightarrow>
          (case py_set (workflow_ids submission) of
             Inl e \<Rightarrow> Some (Inl e, p')
           | Inr initial_workflow_ids \<Rightarrow>
               (case concurrent_recursion fuel
                       (get_metadata_and_subworkflows S submission_id workspace
                          workspace_namespace)
                       initial_workflow_ids (Map.empty, p') of
                  None \<Rightarrow> None
                | Some (Inl e, workflows_metadata, p'') \<Rightarrow> Some (Inl e, p'')
                | Some (Inr u, workflows_metadata, p'') \<Rightarrow> Some (Inr workflows_metadata, p''))))"

text \<open>
  For stating what the discoverer finds: the references from a workflow to its
  sub-workflows, given the metadata \<open>W i\<close> of each workflow \<open>i\<close>, and the workflows that
  can be reached from the initial ones.
\<close>

definition references :: "(json \<Rightarrow> workflow_metadata) \<Rightarrow> (json \<times> json) set" where
  "references W = {(i, j). j \<in> set (subworkflow_ids (W i))}"

definition reachable_workflows :: "(json \<Rightarrow> workflow_metadata) \<Rightarrow> submission \<Rightarrow> json set" where
  "reachable_workflows W submission = (references W)\<^sup>* `` set (workflow_ids submission)"

section \<open>Sample inputs\<close>

text \<open>
  A concrete environment and concrete call attempts, for evaluating the model. The
  conversions of \<open>sample_env\<close> read plain decimal numerals: on the strings used below they
  agree with Python's \<open>int\<close> and \<open>float\<close>. Its \<open>strptime\<close> knows two timestamps, one hour
  apart, and its estimators are arbitrary, pairwise different functions. \<open>sample_call\<close> is
  a well-formed attempt that is not cached, with the preemptible flag and the disk
  descriptor given; \<open>without\<close> and \<open>with_field\<close> remove and replace a field. The other
  constants are attempts derived from it and the records that the estimator yields for
  them.
\<close>

definition digit_of :: "char \<Rightarrow> nat option" where
  "digit_of c = (let n = of_char c :: nat in if 48 \<le> n \<and> n \<le> 57 then Some (n - 48) else None)"

fun dec_nat :: "nat \<Rightarrow> string \<Rightarrow> nat option" where
  "dec_nat acc [] = Some acc"
| "dec_nat acc (c # cs) = (case digit_of c of None \<Rightarrow> None | Some d \<Rightarrow> dec_nat (10 * acc + d) cs)"

definition dec_digits :: "string \<Rightarrow> nat option" where
  "dec_digits s = (if s = [] then None else dec_nat 0 s)"

definition dec_int :: "string \<Rightarrow> int option" where
  "dec_int s =
     (case s of
        [] \<Rightarrow> None
      | c # cs \<Rightarrow>
          if c = CHR ''-'' then map_option (\<lambda>n. - int n) (dec_digits cs)
          else if c = CHR ''+'' then map_option int (dec_digits cs)
          else map_option int (dec_digits s))"

definition sample_env :: env where
  "sample_env = \<lparr>
     int_of_str = dec_int,
     float_of_str = (\<lambda>s. map_option real_of_int (dec_int s)),
     strptime = map_of [(''2021-06-01T12:00:00.000000Z'', 0), (''2021-06-01T13:00:00.000000Z'', 3600)],
     PersistentDisk_estimate = (\<lambda>size_gb runtime. size_gb * runtime),
     LocalSSDDisk_estimate = (\<lambda>size_gb runtime. 2 * size_gb * runtime),
     GCPCustomN1Cost_estimate = (\<lambda>cpus memory_gb runtime preemptible. (of_int cpus + memory_gb) * runtime),
     GCPCustomN2Cost_estimate = (\<lambda>cpus memory_gb runtime preemptible. 3 * (of_int cpus + memory_gb) * runtime)\<rparr>"

definition cached_call :: call_metadata where
  "cached_call = [(''callCaching'', JObj [(''hit'', JBool True)])]"

definition sample_call :: "string \<Rightarrow> string \<Rightarrow> call_metadata" where
  "sample_call preemptible disks =
     [(''jes'', JObj [(''machineType'', JStr ''custom-4-1024'')]),
      (''start'', JStr ''2021-06-01T12:00:00.000000Z''),
      (''end'', JStr ''2021-06-01T13:00:00.000000Z''),
      (''runtimeAttributes'', JObj [(''preemptible'', JStr preemptible), (''disks'', JStr disks)]),
      (''backendStatus'', JStr ''Preempted'')]"

definition without :: "string \<Rightarrow> call_metadata \<Rightarrow> call_metadata" where
  "without k md = filter (\<lambda>(k', v). k' \<noteq> k) md"

definition with_field :: "string \<Rightarrow> json \<Rightarrow> call_metadata \<Rightarrow> call_metadata" where
  "with_field k v md = (k, v) # without k md"

definition sample_record :: "string \<Rightarrow> cost_record" where
  "sample_record tn =
     \<lparr>task_name = tn, cost = 21600, number_of_cpus = 4, memory = 1, disk = 1,
      duration = 3600, call_cached = False, preempted = JStr ''NA'',
      machine_type = ''custom-4-1024''\<rparr>"

definition cached_record :: "string \<Rightarrow> cost_record" where
  "cached_record tn =
     \<lparr>task_name = tn, cost = 0, number_of_cpus = 0, memory = 0, disk = 0,
      duration = 0, call_cached = True, preempted = JStr ''NA'', machine_type = ''NA''\<rparr>"

definition unsupported_call :: call_metadata where
  "unsupported_call =
     with_field ''jes'' (JObj [(''machineType'', JStr ''n1-standard-4'')]) (sample_call ''0'' [])"

definition preemptible_record :: "bool \<Rightarrow> cost_record" where
  "preemptible_record b = (sample_record ''a'')\<lparr>preempted := JBool b\<rparr>"

definition disk_record :: "real \<Rightarrow> real \<Rightarrow> cost_record" where
  "disk_record size_gb c = (sample_record ''a'')\<lparr>disk := size_gb, cost := c\<rparr>"

definition no_disks_call :: call_metadata where
  "no_disks_call =
     with_field ''runtimeAttributes'' (JObj [(''preemptible'', JStr ''0'')]) (sample_call ''0'' [])"

text \<open>
  A service that answers every request, with an empty submission or an empty workflow;
  many different arguments for \<open>get_submission\<close>; and the service of the example of
  nested workflows: the submission has the workflows A and B and an entry without
  identifier, A has a call that refers to the sub-workflow C, and C one that refers to D.
\<close>

definition sample_service :: service where
  "sample_service =
     \<lparr>submission_response = (\<lambda>t ns ws sid. Some \<lparr>workflows = []\<rparr>),
      workflow_response = (\<lambda>t ns ws sid wid. Some \<lparr>calls = []\<rparr>)\<rparr>"

definition many_submissions :: "nat \<Rightarrow> submission_args list" where
  "many_submissions n = map (\<lambda>i. (replicate (Suc i) CHR ''a'', None, None)) [0..<n]"

definition sample_submission :: submission where
  "sample_submission =
     \<lparr>workflows = [[(''workflowId'', JStr ''A'')], [(''workflowId'', JStr ''B'')],
                   [(''status'', JStr ''Failed'')]]\<rparr>"

definition sample_workflows :: "json \<Rightarrow> workflow_metadata" where
  "sample_workflows i =
     (if i = JStr ''A'' then \<lparr>calls = [(''wf.sub'', [[(''subWorkflowId'', JStr ''C'')]])]\<rparr>
      else if i = JStr ''C''
      then \<lparr>calls = [(''sub.subsub'', [[(''subWorkflowId'', JStr ''D'')]]),
                     (''sub.task'', [cached_call])]\<rparr>
      else \<lparr>calls = []\<rparr>)"

definition nested_service :: service where
  "nested_service =
     \<lparr>submission_response = (\<lambda>t ns ws sid. Some sample_submission),
      workflow_response = (\<lambda>t ns ws sid wid. Some (sample_workflows wid))\<rparr>"

section \<open>Properties of the estimator\<close>

subsection \<open>Sequencing, splitting and the error monad\<close>

lemma and_then_unit_left: "and_then ([], None) b = b"
  by (simp add: and_then_def)

lemma and_then_unit_right: "and_then a ([], None) = a"
  by (cases a) (auto simp: and_then_def split: option.splits)

lemma and_then_assoc: "and_then (and_then a b) c = and_then a (and_then b c)"
  by (cases a; cases b) (auto simp: and_then_def split: option.splits)

lemma and_then_raised: "and_then (evs, Some e) b = (evs, Some e)"
  by (simp add: and_then_def)

lemma and_then_finished: "and_then (evs, None) b = (evs @ fst b, snd b)"
  by (simp add: and_then_def)

lemma estimate_attempts_append:
  "estimate_attempts E w n (xs @ ys) = and_then (estimate_attempts E w n xs) (estimate_attempts E w n ys)"
  by (induction xs) (simp_all add: and_then_unit_left and_then_assoc)

lemma estimate_calls_append:
  "estimate_calls E w (xs @ ys) = and_then (estimate_calls E w xs) (estimate_calls E w ys)"
  by (induction xs) (auto simp: and_then_unit_left and_then_assoc)

lemma split_sep_nonempty: "split_sep sep s \<noteq> []"
  by (induction s) (auto split: list.splits)

lemma split_sep_length: "length (split_sep sep s) = Suc (count_list s sep)"
  by (induction s) (auto split: list.splits simp: split_sep_nonempty)

lemma split_sep_no_sep: "sep \<notin> set s \<Longrightarrow> split_sep sep s = [s]"
  by (induction s) auto

lemma task_name_of_IndexError: "task_name_of n = Inl IndexError \<longleftrightarrow> CHR ''.'' \<notin> set n"
proof
  assume "CHR ''.'' \<notin> set n"
  then show "task_name_of n = Inl IndexError"
    by (simp add: task_name_of_def split_sep_no_sep)
next
  assume a: "task_name_of n = Inl IndexError"
  show "CHR ''.'' \<notin> set n"
  proof
    assume "CHR ''.'' \<in> set n"
    then have "count_list n CHR ''.'' > 0" using count_list_0_iff [of n "CHR ''.''"] by simp
    then have "length (split_sep CHR ''.'' n) \<ge> 2" by (simp add: split_sep_length)
    then obtain a b c where "split_sep CHR ''.'' n = a # b # c"
      by (cases "split_sep CHR ''.'' n"; cases "tl (split_sep CHR ''.'' n)") auto
    with a show False by (simp add: task_name_of_def)
  qed
qed

lemma task_name_of_cases: "task_name_of n = Inl IndexError \<or> (\<exists>t. task_name_of n = Inr t)"
  by (auto simp: task_name_of_def split: list.splits)

lemma bind_Inr_iff: "bind m f = Inr y \<longleftrightarrow> (\<exists>x. m = Inr x \<and> f x = Inr y)"
  by (cases m) (auto simp: bind_def)

lemma bind_Inl_iff: "bind m f = Inl e \<longleftrightarrow> m = Inl e \<or> (\<exists>x. m = Inr x \<and> f x = Inl e)"
  by (cases m) (auto simp: bind_def)

lemma bind_Inr [simp]: "bind (Inr x) f = f x"
  by (simp add: bind_def)

lemma bind_Inl [simp]: "bind (Inl e) f = Inl e"
  by (simp add: bind_def)

lemma estimate_call_cached:
  assumes "task_name_of n = Inr tn"
    and "js_get ''callCaching.hit'' md (Some (JInt 0)) = Inr hit"
    and "py_int E hit = Inr h" and "h \<noteq> 0"
  shows "estimate_call E n md =
     Inr \<lparr>task_name = tn, cost = 0, number_of_cpus = 0, memory = 0, disk = 0,
               duration = 0, call_cached = True, preempted = JStr ''NA'',
               machine_type = ''NA''\<rparr>"
  using assms by (simp add: estimate_call_def)

lemma only_str_Inr_iff:
  "(case x of JStr s \<Rightarrow> f s | _ \<Rightarrow> Inl e) = Inr y \<longleftrightarrow> (\<exists>s. x = JStr s \<and> f s = Inr y)"
  by (cases x) auto

lemma estimate_call_uncached_inv:
  assumes "estimate_call E n md = Inr r" and "\<not> call_cached r"
  shows "\<exists>tn hit mtype cpus memory_gb s start e end' p pn backendStatus dd dsz cp.
      task_name_of n = Inr tn \<and>
      js_get ''callCaching.hit'' md (Some (JInt 0)) = Inr hit \<and> py_int E hit = Inr 0 \<and>
      js_get ''jes.machineType'' md None = Inr (JStr mtype) \<and>
      parse_machine_type E mtype = Inr (cpus, memory_gb) \<and>
      js_get ''start'' md None = Inr s \<and> py_strptime E s = Inr start \<and>
      js_get ''end'' md None = Inr e \<and> py_strptime E e = Inr end' \<and>
      js_get ''runtimeAttributes.preemptible'' md None = Inr p \<and> py_int E p = Inr pn \<and>
      js_get ''backendStatus'' md None = Inr backendStatus \<and>
      js_get ''runtimeAttributes.disks'' md (Some (JStr '''')) = Inr (JStr dd) \<and>
      disk_size_of E dd = Inr dsz \<and>
      js_get ''runtimeAttributes.cpuPlatform'' md (Some (JStr '''')) = Inr cp \<and>
      r = \<lparr>task_name = tn,
           cost = instance_cost E cp cpus memory_gb (end' - start) (pn \<noteq> 0) + disk_cost E dd dsz (end' - start),
           number_of_cpus = cpus, memory = memory_gb, disk = dsz,
           duration = end' - start, call_cached = False,
           preempted = (if pn \<noteq> 0 then JBool (backendStatus = JStr ''Preempted'') else JStr ''NA''),
           machine_type = mtype\<rparr>"
  using assms unfolding estimate_call_def
  by (auto simp: bind_Inr_iff only_str_Inr_iff Let_def split: if_splits)


lemmas sample_defs = sample_env_def cached_call_def sample_call_def dec_int_def dec_digits_def digit_of_def
lemmas model_defs = estimate_workflow_cost_def estimate_attempt_def estimate_call_def
  is_subworkflow_def task_name_of_def js_get_def py_int_def py_strptime_def
  parse_machine_type_def disk_size_of_def disk_cost_def instance_cost_def
  startswith_def endswith_def isspace_def quoted_def caught_message_def and_then_def warning_text_def

subsection \<open>A call name without a dot\<close>

text \<open>
  C10. For a call attempt that is not a sub-workflow reference and whose call name
  contains no dot, deriving the task name raises \<open>IndexError\<close>. The \<open>except\<close> clause does
  not catch it: the exception ends the generator. Whatever the attempt's position in the
  workflow, the output is what the earlier attempts produced, ended by \<open>IndexError\<close>, and
  nothing is produced for the later attempts.
\<close>

theorem IndexError_escapes:
  assumes "CHR ''.'' \<notin> set call_name" and "\<not> is_subworkflow md"
    and "calls wm = before @ (call_name, earlier @ md # later) # after"
    and "estimate_calls E wid (before @ [(call_name, earlier)]) = (evs, None)"
  shows "estimate_call E call_name md = Inl IndexError \<and>
         estimate_workflow_cost E wid wm = (evs, Some IndexError)"
proof -
  have a: "estimate_call E call_name md = Inl IndexError"
    using assms(1) by (simp add: estimate_call_def task_name_of_IndexError [THEN iffD2])
  then have b: "estimate_attempt E wid call_name md = ([], Some IndexError)"
    using assms(2) by (simp add: estimate_attempt_def caught_message_def)
  have "estimate_calls E wid (calls wm) =
      and_then (estimate_calls E wid (before @ [(call_name, earlier)]))
        (and_then (estimate_attempts E wid call_name (md # later)) (estimate_calls E wid after))"
    unfolding assms(3)
    by (simp add: estimate_calls_append estimate_attempts_append and_then_assoc and_then_unit_right)
  also have "\<dots> = (evs, Some IndexError)"
    by (simp add: assms(4) b and_then_def)
  finally show ?thesis using a by (simp add: estimate_workflow_cost_def)
qed

theorem IndexError_escapes_witness:
  "CHR ''.'' \<notin> set ''nodot'' \<and> \<not> is_subworkflow cached_call \<and>
   estimate_calls sample_env ''w'' ([(''wf.a'', [cached_call])] @ [(''nodot'', [])]) =
     ([Yield \<lparr>task_name = ''a'', cost = 0, number_of_cpus = 0, memory = 0, disk = 0,
               duration = 0, call_cached = True, preempted = JStr ''NA'',
               machine_type = ''NA''\<rparr>], None) \<and>
   estimate_workflow_cost sample_env ''w''
     \<lparr>calls = [(''wf.a'', [cached_call]), (''nodot'', [cached_call, cached_call]),
               (''wf.b'', [cached_call])]\<rparr> =
     ([Yield \<lparr>task_name = ''a'', cost = 0, number_of_cpus = 0, memory = 0, disk = 0,
               duration = 0, call_cached = True, preempted = JStr ''NA'',
               machine_type = ''NA''\<rparr>], Some IndexError)"
proof -
  have h1: "CHR ''.'' \<notin> set ''nodot''" by simp
  have h2: "\<not> is_subworkflow cached_call" by (simp add: is_subworkflow_def cached_call_def)
  have h3: "calls \<lparr>calls = [(''wf.a'', [cached_call]), (''nodot'', [cached_call, cached_call]),
               (''wf.b'', [cached_call])]\<rparr> =
            [(''wf.a'', [cached_call])] @ (''nodot'', [] @ cached_call # [cached_call]) # [(''wf.b'', [cached_call])]"
    by simp
  have h4: "estimate_calls sample_env ''w'' ([(''wf.a'', [cached_call])] @ [(''nodot'', [])]) =
     ([Yield \<lparr>task_name = ''a'', cost = 0, number_of_cpus = 0, memory = 0, disk = 0,
               duration = 0, call_cached = True, preempted = JStr ''NA'',
               machine_type = ''NA''\<rparr>], None)"
    by (simp add: model_defs sample_defs)
  show ?thesis using h1 h2 h4 IndexError_escapes [OF h1 h2 h3 h4] by simp
qed

lemma estimate_attempts_flat:
  "and_then (estimate_attempts E w n l) b =
   foldr (\<lambda>(n, a). and_then (estimate_attempt E w n a))
     (map (Pair n) (filter (\<lambda>a. \<not> is_subworkflow a) l)) b"
proof (induction l)
  case Nil
  show ?case by (simp add: and_then_unit_left)
next
  case (Cons a l)
  show ?case
  proof (cases "is_subworkflow a")
    case True
    then have "estimate_attempt E w n a = ([], None)" by (simp add: estimate_attempt_def)
    with True Cons show ?thesis by (simp add: and_then_unit_left)
  next
    case False
    with Cons show ?thesis by (simp add: and_then_assoc)
  qed
qed

lemma estimate_calls_flat:
  "estimate_calls E w cs =
   foldr (\<lambda>(n, a). and_then (estimate_attempt E w n a)) (attempts_of cs) ([], None)"
proof (induction cs)
  case Nil
  show ?case by (simp add: attempts_of_def)
next
  case (Cons c cs)
  obtain n l where c: "c = (n, l)" by (cases c)
  have "estimate_calls E w (c # cs) = and_then (estimate_attempts E w n l) (estimate_calls E w cs)"
    by (simp add: c)
  also have "\<dots> = foldr (\<lambda>(n, a). and_then (estimate_attempt E w n a))
     (map (Pair n) (filter (\<lambda>a. \<not> is_subworkflow a) l)) (estimate_calls E w cs)"
    by (rule estimate_attempts_flat)
  finally show ?case using Cons by (simp add: c attempts_of_def)
qed

lemma and_then_no_raise: "snd a = None \<Longrightarrow> and_then a b = (fst a @ fst b, snd b)"
  by (simp add: and_then_def)

lemma run_no_abort:
  assumes "\<forall>(n, a) \<in> set xs. snd (estimate_attempt E w n a) = None"
  shows "foldr (\<lambda>(n, a). and_then (estimate_attempt E w n a)) xs ([], None) =
         (concat (map (\<lambda>(n, a). fst (estimate_attempt E w n a)) xs), None)"
  using assms
proof (induction xs)
  case Nil
  show ?case by simp
next
  case (Cons x xs)
  obtain n a where x: "x = (n, a)" by (cases x)
  from Cons.prems have "snd (estimate_attempt E w n a) = None" by (simp add: x)
  moreover from Cons have "foldr (\<lambda>(n, a). and_then (estimate_attempt E w n a)) xs ([], None) =
         (concat (map (\<lambda>(n, a). fst (estimate_attempt E w n a)) xs), None)" by simp
  ultimately show ?case by (simp add: x and_then_no_raise)
qed

lemma concat_singletons:
  "\<forall>x \<in> set xs. f x = [g x] \<Longrightarrow> concat (map f xs) = map g xs"
  by (induction xs) auto

lemma estimate_attempt_yield:
  "\<not> is_subworkflow a \<Longrightarrow> \<not> isl (estimate_call E n a) \<Longrightarrow>
   estimate_attempt E w n a = ([Yield (projr (estimate_call E n a))], None)"
  by (cases "estimate_call E n a") (simp_all add: estimate_attempt_def)

lemma estimate_attempt_caught:
  "\<not> is_subworkflow a \<Longrightarrow> estimate_call E n a = Inl e \<Longrightarrow> caught_message e = Some msg \<Longrightarrow>
   estimate_attempt E w n a = ([Warning (warning_text w msg)], None)"
  by (simp add: estimate_attempt_def)

lemma attempts_of_not_subworkflow: "(n, a) \<in> set (attempts_of cs) \<Longrightarrow> \<not> is_subworkflow a"
  by (auto simp: attempts_of_def)

lemma estimate_calls_all_yield:
  assumes "\<forall>(n, a) \<in> set (attempts_of cs). \<not> isl (estimate_call E n a)"
  shows "estimate_calls E w cs =
         (map (\<lambda>(n, a). Yield (projr (estimate_call E n a))) (attempts_of cs), None)"
proof -
  have y: "\<And>n a. (n, a) \<in> set (attempts_of cs) \<Longrightarrow>
      estimate_attempt E w n a = ([Yield (projr (estimate_call E n a))], None)"
    using assms attempts_of_not_subworkflow by (blast intro: estimate_attempt_yield)
  then have "\<forall>(n, a) \<in> set (attempts_of cs). snd (estimate_attempt E w n a) = None"
    by auto
  then have "estimate_calls E w cs =
      (concat (map (\<lambda>(n, a). fst (estimate_attempt E w n a)) (attempts_of cs)), None)"
    by (simp add: estimate_calls_flat run_no_abort)
  moreover have "concat (map (\<lambda>(n, a). fst (estimate_attempt E w n a)) (attempts_of cs)) =
      map (\<lambda>(n, a). Yield (projr (estimate_call E n a))) (attempts_of cs)"
    by (rule concat_singletons) (auto simp: y)
  ultimately show ?thesis by simp
qed

lemmas sample_evals = sample_defs without_def with_field_def Let_def numeral_2_eq_2

subsection \<open>Cached attempts\<close>

text \<open>
  C2, as amended. For a call attempt that is not a sub-workflow reference, whose call
  name contains a dot and whose cache-hit indicator parses to a nonzero integer, the loop
  body yields exactly one record, with \<open>cost = 0.0\<close>, \<open>number_of_cpus = 0\<close>,
  \<open>memory = 0.0\<close>, \<open>disk = 0.0\<close>, \<open>duration = 0.0\<close>, \<open>preempted = "NA"\<close> and
  \<open>machine_type = "NA"\<close>, whatever the other fields of the metadata are.
\<close>

theorem cached_attempt_record:
  assumes "\<not> is_subworkflow md" and "CHR ''.'' \<in> set call_name"
    and "js_get ''callCaching.hit'' md (Some (JInt 0)) = Inr hit"
    and "py_int E hit = Inr h" and "h \<noteq> 0"
  shows "\<exists>tn. task_name_of call_name = Inr tn \<and>
           estimate_attempt E wid call_name md =
             ([Yield \<lparr>task_name = tn, cost = 0, number_of_cpus = 0, memory = 0, disk = 0,
                      duration = 0, call_cached = True, preempted = JStr ''NA'',
                      machine_type = ''NA''\<rparr>], None)"
proof -
  from assms(2) obtain tn where tn: "task_name_of call_name = Inr tn"
    using task_name_of_cases [of call_name] task_name_of_IndexError [of call_name] by auto
  from estimate_call_cached [OF tn assms(3) assms(4) assms(5)] assms(1) tn
  show ?thesis by (simp add: estimate_attempt_def)
qed

theorem cached_attempt_record_witness:
  "\<not> is_subworkflow cached_call \<and> CHR ''.'' \<in> set ''MyWorkflow.alignReads'' \<and>
   js_get ''callCaching.hit'' cached_call (Some (JInt 0)) = Inr (JBool True) \<and>
   py_int sample_env (JBool True) = Inr 1 \<and> (1::int) \<noteq> 0 \<and>
   estimate_attempt sample_env ''w'' ''MyWorkflow.alignReads'' cached_call =
     ([Yield \<lparr>task_name = ''alignReads'', cost = 0, number_of_cpus = 0, memory = 0, disk = 0,
              duration = 0, call_cached = True, preempted = JStr ''NA'',
              machine_type = ''NA''\<rparr>], None)"
proof -
  have h1: "\<not> is_subworkflow cached_call" by (simp add: is_subworkflow_def cached_call_def)
  have h2: "CHR ''.'' \<in> set ''MyWorkflow.alignReads''" by simp
  have h3: "js_get ''callCaching.hit'' cached_call (Some (JInt 0)) = Inr (JBool True)"
    by (simp add: js_get_def cached_call_def)
  have h4: "py_int sample_env (JBool True) = Inr 1" by (simp add: py_int_def)
  have h5: "(1::int) \<noteq> 0" by simp
  have tn: "task_name_of ''MyWorkflow.alignReads'' = Inr ''alignReads''"
    by (simp add: task_name_of_def)
  from cached_attempt_record [OF h1 h2 h3 h4 h5, of "''w''"] tn h1 h2 h3 h4 h5
  show ?thesis by simp
qed

text \<open>
  The claim as stated, without the condition on the call name, fails: a cached attempt
  under the call name \<open>alignReads\<close> yields no record, the generator ends with \<open>IndexError\<close>.
\<close>

theorem cached_attempt_without_dot:
  "\<not> is_subworkflow cached_call \<and>
   js_get ''callCaching.hit'' cached_call (Some (JInt 0)) = Inr (JBool True) \<and>
   py_int sample_env (JBool True) = Inr 1 \<and>
   estimate_workflow_cost sample_env ''w'' \<lparr>calls = [(''alignReads'', [cached_call])]\<rparr> =
     ([], Some IndexError)"
  by (simp add: model_defs sample_defs)

subsection \<open>Attempts that are skipped\<close>

text \<open>
  C3. When the processing of a call attempt raises \<open>KeyError\<close> (a required field is
  missing) or \<open>TNUCostException\<close> (the machine type does not parse), the generator logs
  one warning, made of the workflow identifier and the message of the exception, yields
  no record for the attempt, and goes on: its output is the output for the earlier
  attempts, the warning, and the output that the later attempts produce on their own. If
  all the later attempts are well formed, that is a record for each of them.
\<close>

theorem caught_attempt_is_skipped:
  assumes "\<not> is_subworkflow md"
    and "estimate_call E call_name md = Inl e"
    and "e = KeyError msg \<or> e = TNUCostException msg"
    and "calls wm = before @ (call_name, earlier @ md # later) # after"
    and "estimate_calls E wid (before @ [(call_name, earlier)]) = (evs, None)"
  shows "estimate_workflow_cost E wid wm =
           and_then (evs @ [Warning (warning_text wid msg)], None)
             (estimate_calls E wid ((call_name, later) # after)) \<and>
         ((\<forall>(n, a) \<in> set (attempts_of ((call_name, later) # after)).
              \<not> isl (estimate_call E n a)) \<longrightarrow>
          estimate_workflow_cost E wid wm =
            (evs @ Warning (warning_text wid msg) #
               map (\<lambda>(n, a). Yield (projr (estimate_call E n a)))
                 (attempts_of ((call_name, later) # after)), None))"
proof -
  from assms(3) have "caught_message e = Some msg" by (auto simp: caught_message_def)
  with assms(1,2) have b: "estimate_attempt E wid call_name md = ([Warning (warning_text wid msg)], None)"
    by (rule estimate_attempt_caught)
  have "estimate_calls E wid (calls wm) =
      and_then (estimate_calls E wid (before @ [(call_name, earlier)]))
        (and_then (estimate_attempt E wid call_name md)
           (estimate_calls E wid ((call_name, later) # after)))"
    unfolding assms(4)
    by (simp add: estimate_calls_append estimate_attempts_append and_then_assoc and_then_unit_right)
  also have "\<dots> = and_then (evs @ [Warning (warning_text wid msg)], None)
             (estimate_calls E wid ((call_name, later) # after))"
    by (simp add: assms(5) b and_then_def)
  finally have eq: "estimate_workflow_cost E wid wm =
      and_then (evs @ [Warning (warning_text wid msg)], None)
             (estimate_calls E wid ((call_name, later) # after))"
    by (simp add: estimate_workflow_cost_def)
  show ?thesis
  proof (intro conjI impI)
    show "estimate_workflow_cost E wid wm =
      and_then (evs @ [Warning (warning_text wid msg)], None)
             (estimate_calls E wid ((call_name, later) # after))" by (rule eq)
  next
    assume "\<forall>(n, a) \<in> set (attempts_of ((call_name, later) # after)).
              \<not> isl (estimate_call E n a)"
    then have "estimate_calls E wid ((call_name, later) # after) =
      (map (\<lambda>(n, a). Yield (projr (estimate_call E n a)))
                 (attempts_of ((call_name, later) # after)), None)"
      by (rule estimate_calls_all_yield)
    with eq show "estimate_workflow_cost E wid wm =
            (evs @ Warning (warning_text wid msg) #
               map (\<lambda>(n, a). Yield (projr (estimate_call E n a)))
                 (attempts_of ((call_name, later) # after)), None)"
      by (simp add: and_then_def)
  qed
qed

lemma sample_call_ok:
  "estimate_call sample_env ''wf.a'' (sample_call ''0'' []) = Inr (sample_record ''a'')"
  by (simp add: model_defs sample_evals sample_record_def)

theorem caught_attempt_is_skipped_witness:
  "\<not> is_subworkflow (without ''start'' (sample_call ''0'' [])) \<and>
   estimate_call sample_env ''wf.a'' (without ''start'' (sample_call ''0'' [])) =
     Inl (KeyError ''start'') \<and>
   estimate_workflow_cost sample_env ''w''
     \<lparr>calls = [(''wf.a'', [sample_call ''0'' [], without ''start'' (sample_call ''0'' []),
                            sample_call ''0'' []]),
               (''wf.b'', [cached_call])]\<rparr> =
     ([Yield (sample_record ''a''),
       Warning ''Unable to estimate costs for workflow w: start'',
       Yield (sample_record ''a''), Yield (cached_record ''b'')], None)"
proof -
  let ?ok = "sample_call ''0'' []"
  let ?bad = "without ''start'' (sample_call ''0'' [])"
  let ?wm = "\<lparr>calls = [(''wf.a'', [?ok, ?bad, ?ok]), (''wf.b'', [cached_call])]\<rparr>"
  have h1: "\<not> is_subworkflow ?bad" by (simp add: is_subworkflow_def sample_evals)
  have h2: "estimate_call sample_env ''wf.a'' ?bad = Inl (KeyError ''start'')"
    by (simp add: model_defs sample_evals)
  have h3: "KeyError ''start'' = KeyError ''start'' \<or> KeyError ''start'' = TNUCostException ''start''"
    by simp
  have h4: "calls ?wm = [] @ (''wf.a'', [?ok] @ ?bad # [?ok]) # [(''wf.b'', [cached_call])]"
    by simp
  have h5: "estimate_calls sample_env ''w'' ([] @ [(''wf.a'', [?ok])]) = ([Yield (sample_record ''a'')], None)"
    by (simp add: estimate_attempt_def is_subworkflow_def sample_call_ok and_then_def)
       (simp add: sample_call_def)
  have h6: "\<forall>(n, a) \<in> set (attempts_of ((''wf.a'', [?ok]) # [(''wf.b'', [cached_call])])).
              \<not> isl (estimate_call sample_env n a)"
    by (simp add: model_defs sample_evals attempts_of_def)
  have r: "map (\<lambda>(n, a). Yield (projr (estimate_call sample_env n a)))
             (attempts_of ((''wf.a'', [?ok]) # [(''wf.b'', [cached_call])])) =
           [Yield (sample_record ''a''), Yield (cached_record ''b'')]"
    by (simp add: model_defs sample_evals attempts_of_def sample_record_def cached_record_def)
  from caught_attempt_is_skipped [OF h1 h2 h3 h4 h5] h6
  have "estimate_workflow_cost sample_env ''w'' ?wm =
      ([Yield (sample_record ''a'')] @ Warning (warning_text ''w'' ''start'') #
               map (\<lambda>(n, a). Yield (projr (estimate_call sample_env n a)))
                 (attempts_of ((''wf.a'', [?ok]) # [(''wf.b'', [cached_call])])), None)"
    by blast
  then show ?thesis using h1 h2 by (simp add: r warning_text_def)
qed

lemma records_append: "records (xs @ ys) = records xs @ records ys"
  by (simp add: records_def)

subsection \<open>What ends the sequence, and what does not\<close>

text \<open>
  C6, as amended. If the only exceptions that the attempts of a workflow raise are of the
  two kinds that the estimator catches (\<open>KeyError\<close> and \<open>TNUCostException\<close>), the sequence
  ends normally, whatever the number of such attempts, and its records are the records of
  the well-formed attempts, in order: each bad attempt is skipped and nothing else is lost.
\<close>

theorem caught_errors_never_abort:
  assumes "\<forall>(n, a) \<in> set (attempts_of (calls wm)).
             \<forall>e. estimate_call E n a = Inl e \<longrightarrow> caught_message e \<noteq> None"
  shows "snd (estimate_workflow_cost E wid wm) = None \<and>
         records (fst (estimate_workflow_cost E wid wm)) =
           map (\<lambda>(n, a). projr (estimate_call E n a))
             (filter (\<lambda>(n, a). \<not> isl (estimate_call E n a)) (attempts_of (calls wm)))"
proof -
  have step: "\<And>n a. (n, a) \<in> set (attempts_of (calls wm)) \<Longrightarrow>
      snd (estimate_attempt E wid n a) = None \<and>
      records (fst (estimate_attempt E wid n a)) =
        (if isl (estimate_call E n a) then [] else [projr (estimate_call E n a)])"
  proof -
    fix n a assume m: "(n, a) \<in> set (attempts_of (calls wm))"
    then have ns: "\<not> is_subworkflow a" by (rule attempts_of_not_subworkflow)
    show "snd (estimate_attempt E wid n a) = None \<and>
      records (fst (estimate_attempt E wid n a)) =
        (if isl (estimate_call E n a) then [] else [projr (estimate_call E n a)])"
    proof (cases "estimate_call E n a")
      case (Inl e)
      with assms m obtain msg where "caught_message e = Some msg" by fastforce
      with ns Inl show ?thesis by (simp add: estimate_attempt_def records_def)
    next
      case (Inr r)
      with ns show ?thesis by (simp add: estimate_attempt_def records_def)
    qed
  qed
  have gen: "\<And>xs. set xs \<subseteq> set (attempts_of (calls wm)) \<Longrightarrow>
      records (concat (map (\<lambda>(n, a). fst (estimate_attempt E wid n a)) xs)) =
      map (\<lambda>(n, a). projr (estimate_call E n a))
             (filter (\<lambda>(n, a). \<not> isl (estimate_call E n a)) xs)"
  proof -
    fix xs show "set xs \<subseteq> set (attempts_of (calls wm)) \<Longrightarrow>
      records (concat (map (\<lambda>(n, a). fst (estimate_attempt E wid n a)) xs)) =
      map (\<lambda>(n, a). projr (estimate_call E n a))
             (filter (\<lambda>(n, a). \<not> isl (estimate_call E n a)) xs)"
    proof (induction xs)
      case Nil
      show ?case by (simp add: records_def)
    next
      case (Cons x xs)
      obtain n a where x: "x = (n, a)" by (cases x)
      with Cons.prems have "(n, a) \<in> set (attempts_of (calls wm))" by simp
      from step [OF this] Cons show ?case by (simp add: x records_append)
    qed
  qed
  from step have "\<forall>(n, a) \<in> set (attempts_of (calls wm)). snd (estimate_attempt E wid n a) = None"
    by blast
  then have "estimate_calls E wid (calls wm) =
      (concat (map (\<lambda>(n, a). fst (estimate_attempt E wid n a)) (attempts_of (calls wm))), None)"
    by (simp add: estimate_calls_flat run_no_abort)
  then show ?thesis using gen [of "attempts_of (calls wm)"]
    by (simp add: estimate_workflow_cost_def)
qed

theorem caught_errors_never_abort_witness:
  "snd (estimate_workflow_cost sample_env ''w''
     \<lparr>calls = [(''wf.a'', [sample_call ''0'' [], without ''start'' (sample_call ''0'' [])]),
               (''wf.b'', [unsupported_call, cached_call])]\<rparr>) = None \<and>
   records (fst (estimate_workflow_cost sample_env ''w''
     \<lparr>calls = [(''wf.a'', [sample_call ''0'' [], without ''start'' (sample_call ''0'' [])]),
               (''wf.b'', [unsupported_call, cached_call])]\<rparr>)) =
     [sample_record ''a'', cached_record ''b'']"
proof -
  let ?cs = "[(''wf.a'', [sample_call ''0'' [], without ''start'' (sample_call ''0'' [])]),
              (''wf.b'', [unsupported_call, cached_call])]"
  have h: "\<forall>(n, a) \<in> set (attempts_of (calls \<lparr>calls = ?cs\<rparr>)).
      \<forall>e. estimate_call sample_env n a = Inl e \<longrightarrow> caught_message e \<noteq> None"
    by (simp add: model_defs sample_evals attempts_of_def unsupported_call_def)
  have r: "map (\<lambda>(n, a). projr (estimate_call sample_env n a))
             (filter (\<lambda>(n, a). \<not> isl (estimate_call sample_env n a))
                (attempts_of ?cs)) =
           [sample_record ''a'', cached_record ''b'']"
    by (simp add: model_defs sample_evals attempts_of_def unsupported_call_def
        sample_record_def cached_record_def)
  from caught_errors_never_abort [OF h, of "''w''"] show ?thesis
    by (simp add: r)
qed

text \<open>
  The claim as stated, for any malformation, fails: an attempt whose \<open>start\<close> is not in
  the expected format raises \<open>ValueError\<close>, which is not caught. It ends the sequence, and
  the well-formed attempt after it gets no record (alone, it gets one).
\<close>

theorem malformed_timestamp_aborts:
  "estimate_workflow_cost sample_env ''w''
     \<lparr>calls = [(''wf.a'', [with_field ''start'' (JStr ''2021-06-01 12:00:00'') (sample_call ''0'' []),
                            sample_call ''0'' []])]\<rparr> = ([], Some ValueError) \<and>
   estimate_workflow_cost sample_env ''w''
     \<lparr>calls = [(''wf.a'', [sample_call ''0'' []])]\<rparr> = ([Yield (sample_record ''a'')], None)"
  by (simp add: model_defs sample_evals sample_record_def)

subsection \<open>Preemption\<close>

text \<open>
  C4, as amended. For a call attempt that is not cached and whose preemptible flag parses
  to zero, the record that is yielded has \<open>preempted = "NA"\<close>, whatever the backend status
  is. The backend-status field is read before the flag is tested, though: no record is
  yielded for a non-cached attempt without it.
\<close>

theorem backend_status_is_required:
  assumes "estimate_call E call_name md = Inr r" and "\<not> call_cached r"
  shows "(\<exists>b. js_get ''backendStatus'' md None = Inr b) \<and>
         (\<forall>p. js_get ''runtimeAttributes.preemptible'' md None = Inr p \<and> py_int E p = Inr 0 \<longrightarrow>
              preempted r = JStr ''NA'')"
  using estimate_call_uncached_inv [OF assms] by auto

theorem backend_status_is_required_witness:
  "estimate_call sample_env ''wf.a'' (sample_call ''0'' []) = Inr (sample_record ''a'') \<and>
   \<not> call_cached (sample_record ''a'') \<and>
   js_get ''backendStatus'' (sample_call ''0'' []) None = Inr (JStr ''Preempted'') \<and>
   js_get ''runtimeAttributes.preemptible'' (sample_call ''0'' []) None = Inr (JStr ''0'') \<and>
   py_int sample_env (JStr ''0'') = Inr 0 \<and>
   preempted (sample_record ''a'') = JStr ''NA''"
proof -
  have h1: "estimate_call sample_env ''wf.a'' (sample_call ''0'' []) = Inr (sample_record ''a'')"
    by (rule sample_call_ok)
  have h2: "\<not> call_cached (sample_record ''a'')" by (simp add: sample_record_def)
  have h3: "js_get ''runtimeAttributes.preemptible'' (sample_call ''0'' []) None = Inr (JStr ''0'')"
    by (simp add: js_get_def sample_call_def)
  have h4: "py_int sample_env (JStr ''0'') = Inr 0"
    by (simp add: py_int_def sample_defs)
  have h5: "js_get ''backendStatus'' (sample_call ''0'' []) None = Inr (JStr ''Preempted'')"
    by (simp add: js_get_def sample_call_def)
  from backend_status_is_required [OF h1 h2] h3 h4
  have "preempted (sample_record ''a'') = JStr ''NA''" by blast
  with h1 h2 h3 h4 h5 show ?thesis by simp
qed

text \<open>
  The claim as stated fails: a non-preemptible attempt that yields a record with the
  backend-status field is skipped, with a warning, without it.
\<close>

theorem missing_backend_status_is_skipped:
  "js_get ''runtimeAttributes.preemptible'' (without ''backendStatus'' (sample_call ''0'' [])) None =
     Inr (JStr ''0'') \<and>
   py_int sample_env (JStr ''0'') = Inr 0 \<and>
   estimate_attempt sample_env ''w'' ''wf.a'' (sample_call ''0'' []) =
     ([Yield (sample_record ''a'')], None) \<and>
   estimate_attempt sample_env ''w'' ''wf.a'' (without ''backendStatus'' (sample_call ''0'' [])) =
     ([Warning ''Unable to estimate costs for workflow w: backendStatus''], None)"
  by (simp add: model_defs sample_evals sample_record_def)

text \<open>
  C8. For a call attempt that is not cached and whose preemptible flag parses to a
  nonzero integer, the record that is yielded has \<open>preempted = True\<close> if the
  backend-status field equals \<open>"Preempted"\<close>, and \<open>preempted = False\<close> for any other value.
\<close>

theorem preempted_of_preemptible:
  assumes "estimate_call E call_name md = Inr r" and "\<not> call_cached r"
    and "js_get ''runtimeAttributes.preemptible'' md None = Inr p"
    and "py_int E p = Inr pn" and "pn \<noteq> 0"
  shows "\<exists>b. js_get ''backendStatus'' md None = Inr b \<and>
             preempted r = JBool (b = JStr ''Preempted'')"
  using estimate_call_uncached_inv [OF assms(1,2)] assms(3-5) by auto

theorem preempted_of_preemptible_witness:
  "estimate_call sample_env ''wf.a'' (sample_call ''1'' []) = Inr (preemptible_record True) \<and>
   estimate_call sample_env ''wf.a''
     (with_field ''backendStatus'' (JStr ''Done'') (sample_call ''1'' [])) =
     Inr (preemptible_record False) \<and>
   py_int sample_env (JStr ''1'') = Inr 1 \<and>
   preempted (preemptible_record True) = JBool (JStr ''Preempted'' = JStr ''Preempted'') \<and>
   preempted (preemptible_record False) = JBool (JStr ''Done'' = JStr ''Preempted'')"
proof -
  let ?m1 = "sample_call ''1'' []"
  let ?m2 = "with_field ''backendStatus'' (JStr ''Done'') (sample_call ''1'' [])"
  have a1: "estimate_call sample_env ''wf.a'' ?m1 = Inr (preemptible_record True)"
    by (simp add: model_defs sample_evals sample_record_def preemptible_record_def)
  have a2: "estimate_call sample_env ''wf.a'' ?m2 = Inr (preemptible_record False)"
    by (simp add: model_defs sample_evals sample_record_def preemptible_record_def)
  have c: "\<And>b. \<not> call_cached (preemptible_record b)"
    by (simp add: preemptible_record_def sample_record_def)
  have p1: "js_get ''runtimeAttributes.preemptible'' ?m1 None = Inr (JStr ''1'')"
    by (simp add: js_get_def sample_evals)
  have p2: "js_get ''runtimeAttributes.preemptible'' ?m2 None = Inr (JStr ''1'')"
    by (simp add: js_get_def sample_evals)
  have i: "py_int sample_env (JStr ''1'') = Inr 1" by (simp add: py_int_def sample_defs)
  have b1: "js_get ''backendStatus'' ?m1 None = Inr (JStr ''Preempted'')"
    by (simp add: js_get_def sample_evals)
  have b2: "js_get ''backendStatus'' ?m2 None = Inr (JStr ''Done'')"
    by (simp add: js_get_def sample_evals)
  from preempted_of_preemptible [OF a1 c p1 i] b1
  have r1: "preempted (preemptible_record True) = JBool (JStr ''Preempted'' = JStr ''Preempted'')"
    by auto
  from preempted_of_preemptible [OF a2 c p2 i] b2
  have r2: "preempted (preemptible_record False) = JBool (JStr ''Done'' = JStr ''Preempted'')"
    by auto
  from a1 a2 i r1 r2 show ?thesis by blast
qed

subsection \<open>Disk size and disk pricing\<close>

text \<open>
  C7. In the record yielded for a non-cached attempt with disk descriptor \<open>d\<close> (the empty
  string if the field is missing): if \<open>d\<close> starts with \<open>local-disk\<close>, it has three
  whitespace-separated tokens and the disk size is the middle one, read as a number;
  otherwise the disk size is 1.0. The cost is the instance cost plus the disk cost, which
  is the local-SSD estimate if \<open>d\<close> ends with \<open>LOCAL\<close> and the persistent-disk estimate if
  not. So \<open>"local-disk 50 SSD"\<close> gives 50.0 GB at the persistent-disk price,
  \<open>"local-disk 50 LOCAL"\<close> gives 50.0 GB at the local-SSD price, and an empty or missing
  descriptor gives 1.0 GB at the persistent-disk price.
\<close>

theorem disk_size_and_pricing:
  assumes "estimate_call E call_name md = Inr r" and "\<not> call_cached r"
    and "js_get ''runtimeAttributes.disks'' md (Some (JStr [])) = Inr (JStr d)"
    and "js_get ''runtimeAttributes.cpuPlatform'' md (Some (JStr [])) = Inr cp"
    and "inst = instance_cost E cp (number_of_cpus r) (memory r) (duration r)
                  (preempted r \<noteq> JStr ''NA'')"
  shows
    "(startswith d ''local-disk'' \<longrightarrow>
        (\<exists>a b c. split_ws d = [a, b, c] \<and> float_of_str E b = Some (disk r))) \<and>
     (\<not> startswith d ''local-disk'' \<longrightarrow> disk r = 1) \<and>
     (endswith d ''LOCAL'' \<longrightarrow> cost r = inst + LocalSSDDisk_estimate E (disk r) (duration r)) \<and>
     (\<not> endswith d ''LOCAL'' \<longrightarrow> cost r = inst + PersistentDisk_estimate E (disk r) (duration r)) \<and>
     (d = ''local-disk 50 SSD'' \<and> float_of_str E ''50'' = Some 50 \<longrightarrow>
        disk r = 50 \<and> cost r = inst + PersistentDisk_estimate E 50 (duration r)) \<and>
     (d = ''local-disk 50 LOCAL'' \<and> float_of_str E ''50'' = Some 50 \<longrightarrow>
        disk r = 50 \<and> cost r = inst + LocalSSDDisk_estimate E 50 (duration r)) \<and>
     (d = [] \<longrightarrow> disk r = 1 \<and> cost r = inst + PersistentDisk_estimate E 1 (duration r))"
proof -
  from estimate_call_uncached_inv [OF assms(1,2)]
  obtain tn mtype cpus memory_gb start end' pn backendStatus dd dsz cp' where
      dd: "js_get ''runtimeAttributes.disks'' md (Some (JStr [])) = Inr (JStr dd)"
    and sz0: "disk_size_of E dd = Inr dsz"
    and cp': "js_get ''runtimeAttributes.cpuPlatform'' md (Some (JStr [])) = Inr cp'"
    and r: "r = \<lparr>task_name = tn,
           cost = instance_cost E cp' cpus memory_gb (end' - start) (pn \<noteq> (0::int)) +
                  disk_cost E dd dsz (end' - start),
           number_of_cpus = cpus, memory = memory_gb, disk = dsz,
           duration = end' - start, call_cached = False,
           preempted = (if pn \<noteq> 0 then JBool (backendStatus = JStr ''Preempted'')
                        else JStr ''NA''),
           machine_type = mtype\<rparr>"
    by blast
  from dd assms(3) have [simp]: "dd = d" by simp
  from cp' assms(4) have [simp]: "cp' = cp" by simp
  from sz0 r have sz: "disk_size_of E d = Inr (disk r)" by simp
  from r assms(5) have c': "cost r = inst + disk_cost E d (disk r) (duration r)" by simp
  have g1: "startswith d ''local-disk'' \<longrightarrow>
        (\<exists>a b c. split_ws d = [a, b, c] \<and> float_of_str E b = Some (disk r))"
    using sz by (auto simp: disk_size_of_def split: list.splits option.splits)
  have g2: "\<not> startswith d ''local-disk'' \<longrightarrow> disk r = 1"
    using sz by (auto simp: disk_size_of_def)
  have g3: "endswith d ''LOCAL'' \<longrightarrow> cost r = inst + LocalSSDDisk_estimate E (disk r) (duration r)"
    using c' by (simp add: disk_cost_def)
  have g4: "\<not> endswith d ''LOCAL'' \<longrightarrow> cost r = inst + PersistentDisk_estimate E (disk r) (duration r)"
    using c' by (simp add: disk_cost_def)
  have s1: "startswith ''local-disk 50 SSD'' ''local-disk''"
    and s2: "startswith ''local-disk 50 LOCAL'' ''local-disk''"
    and s3: "\<not> startswith [] ''local-disk''"
    by (simp_all add: startswith_def)
  have e1: "\<not> endswith ''local-disk 50 SSD'' ''LOCAL''"
    and e2: "endswith ''local-disk 50 LOCAL'' ''LOCAL''"
    and e3: "\<not> endswith [] ''LOCAL''"
    by (simp_all add: endswith_def)
  have w1: "split_ws ''local-disk 50 SSD'' = [''local-disk'', ''50'', ''SSD'']"
    and w2: "split_ws ''local-disk 50 LOCAL'' = [''local-disk'', ''50'', ''LOCAL'']"
    by (simp_all add: isspace_def)
  have g5: "d = ''local-disk 50 SSD'' \<and> float_of_str E ''50'' = Some 50 \<longrightarrow>
        disk r = 50 \<and> cost r = inst + PersistentDisk_estimate E 50 (duration r)"
    using g1 g4 s1 e1 w1 by auto
  have g6: "d = ''local-disk 50 LOCAL'' \<and> float_of_str E ''50'' = Some 50 \<longrightarrow>
        disk r = 50 \<and> cost r = inst + LocalSSDDisk_estimate E 50 (duration r)"
    using g1 g3 s2 e2 w2 by auto
  have g7: "d = [] \<longrightarrow> disk r = 1 \<and> cost r = inst + PersistentDisk_estimate E 1 (duration r)"
    using g2 g4 s3 e3 by auto
  from g1 g2 g3 g4 g5 g6 g7 show ?thesis by blast
qed

theorem disk_size_and_pricing_witness:
  "float_of_str sample_env ''50'' = Some 50 \<and>
   estimate_call sample_env ''wf.a'' (sample_call ''0'' ''local-disk 50 SSD'') =
     Inr (disk_record 50 198000) \<and>
   cost (disk_record 50 198000) =
     GCPCustomN1Cost_estimate sample_env 4 1 3600 False +
     PersistentDisk_estimate sample_env 50 3600 \<and>
   estimate_call sample_env ''wf.a'' (sample_call ''0'' ''local-disk 50 LOCAL'') =
     Inr (disk_record 50 378000) \<and>
   cost (disk_record 50 378000) =
     GCPCustomN1Cost_estimate sample_env 4 1 3600 False +
     LocalSSDDisk_estimate sample_env 50 3600 \<and>
   estimate_call sample_env ''wf.a'' (sample_call ''0'' []) = Inr (disk_record 1 21600) \<and>
   estimate_call sample_env ''wf.a'' no_disks_call = Inr (disk_record 1 21600) \<and>
   cost (disk_record 1 21600) =
     GCPCustomN1Cost_estimate sample_env 4 1 3600 False +
     PersistentDisk_estimate sample_env 1 3600"
proof -
  let ?ssd = "sample_call ''0'' ''local-disk 50 SSD''"
  let ?loc = "sample_call ''0'' ''local-disk 50 LOCAL''"
  let ?inst = "GCPCustomN1Cost_estimate sample_env 4 1 3600 False"
  have f: "float_of_str sample_env ''50'' = Some 50" by (simp add: sample_defs)
  have nc: "\<And>s c. \<not> call_cached (disk_record s c)"
    by (simp add: disk_record_def sample_record_def)
  have i: "\<And>s c. ?inst = instance_cost sample_env (JStr []) (number_of_cpus (disk_record s c))
              (memory (disk_record s c)) (duration (disk_record s c))
              (preempted (disk_record s c) \<noteq> JStr ''NA'')"
    by (simp add: instance_cost_def disk_record_def sample_record_def)
  have a1: "estimate_call sample_env ''wf.a'' ?ssd = Inr (disk_record 50 198000)"
    by (simp add: model_defs sample_evals sample_record_def disk_record_def)
  have d1: "js_get ''runtimeAttributes.disks'' ?ssd (Some (JStr [])) = Inr (JStr ''local-disk 50 SSD'')"
    by (simp add: js_get_def sample_evals)
  have p1: "js_get ''runtimeAttributes.cpuPlatform'' ?ssd (Some (JStr [])) = Inr (JStr [])"
    by (simp add: js_get_def sample_evals)
  from disk_size_and_pricing [OF a1 nc d1 p1 i] f
  have r1: "cost (disk_record 50 198000) = ?inst + PersistentDisk_estimate sample_env 50 3600"
    by (simp add: disk_record_def sample_record_def)
  have a2: "estimate_call sample_env ''wf.a'' ?loc = Inr (disk_record 50 378000)"
    by (simp add: model_defs sample_evals sample_record_def disk_record_def)
  have d2: "js_get ''runtimeAttributes.disks'' ?loc (Some (JStr [])) = Inr (JStr ''local-disk 50 LOCAL'')"
    by (simp add: js_get_def sample_evals)
  have p2: "js_get ''runtimeAttributes.cpuPlatform'' ?loc (Some (JStr [])) = Inr (JStr [])"
    by (simp add: js_get_def sample_evals)
  from disk_size_and_pricing [OF a2 nc d2 p2 i] f
  have r2: "cost (disk_record 50 378000) = ?inst + LocalSSDDisk_estimate sample_env 50 3600"
    by (simp add: disk_record_def sample_record_def)
  have a3: "estimate_call sample_env ''wf.a'' (sample_call ''0'' []) = Inr (disk_record 1 21600)"
    by (simp add: model_defs sample_evals sample_record_def disk_record_def)
  have a4: "estimate_call sample_env ''wf.a'' no_disks_call = Inr (disk_record 1 21600)"
    by (simp add: model_defs sample_evals sample_record_def disk_record_def no_disks_call_def)
  have d4: "js_get ''runtimeAttributes.disks'' no_disks_call (Some (JStr [])) = Inr (JStr [])"
    by (simp add: js_get_def sample_evals no_disks_call_def)
  have p4: "js_get ''runtimeAttributes.cpuPlatform'' no_disks_call (Some (JStr [])) = Inr (JStr [])"
    by (simp add: js_get_def sample_evals no_disks_call_def)
  from disk_size_and_pricing [OF a4 nc d4 p4 i]
  have r4: "cost (disk_record 1 21600) = ?inst + PersistentDisk_estimate sample_env 1 3600"
    by (simp add: disk_record_def sample_record_def)
  from f a1 r1 a2 r2 a3 a4 r4 show ?thesis by blast
qed

section \<open>Properties of the machine-type parser\<close>

lemma replace_absent: "\<not> contains t old \<Longrightarrow> replace old new t = t"
  by (induction t) auto

lemma replace_prefix:
  assumes "old \<noteq> []"
  shows "replace old new (old @ t) = new @ replace old new t"
proof -
  from assms obtain c cs where old: "old = c # cs" by (cases old) auto
  have "startswith (old @ t) old" by (simp add: startswith_def)
  then show ?thesis using assms by (simp add: old)
qed

lemma split_max_nonempty: "split_max sep n s \<noteq> []"
  by (induction sep n s rule: split_max.induct) (auto split: list.splits)

lemma split_max_at_sep:
  "sep \<notin> set a \<Longrightarrow> split_max sep (Suc n) (a @ sep # rest) = a # split_max sep n rest"
  by (induction a) auto

lemma split_max_Suc_cases:
  "split_max sep (Suc n) s = a # ps \<Longrightarrow>
     sep \<notin> set a \<and> ((ps = [] \<and> s = a) \<or> (\<exists>t. s = a @ sep # t \<and> ps = split_max sep n t))"
proof (induction s arbitrary: a ps)
  case Nil
  then show ?case by auto
next
  case (Cons c s)
  show ?case
  proof (cases "c = sep")
    case True
    with Cons.prems show ?thesis by auto
  next
    case False
    obtain p qs where pq: "split_max sep (Suc n) s = p # qs"
      using split_max_nonempty [of sep "Suc n" s] by (cases "split_max sep (Suc n) s") auto
    with Cons.prems False have a: "a = c # p" and ps: "ps = qs" by auto
    from Cons.IH [OF pq] False a ps show ?thesis by auto
  qed
qed

lemma split_max_2_three_parts:
  assumes "split_max sep 2 s = [a, b, c]"
  shows "s = a @ sep # b @ sep # c \<and> sep \<notin> set a \<and> sep \<notin> set b"
proof -
  from assms have "split_max sep (Suc (Suc 0)) s = a # [b, c]" by (simp add: numeral_2_eq_2)
  from split_max_Suc_cases [OF this]
  obtain t where a: "sep \<notin> set a" and s: "s = a @ sep # t" and t: "[b, c] = split_max sep (Suc 0) t"
    by auto
  from t have "split_max sep (Suc 0) t = b # [c]" by simp
  from split_max_Suc_cases [OF this]
  obtain u where b: "sep \<notin> set b" and t': "t = b @ sep # u" and u: "[c] = split_max sep 0 u"
    by auto
  from u have "u = c" by simp
  with a b s t' show ?thesis by simp
qed

lemma split_max_2_custom:
  assumes "CHR ''-'' \<notin> set c"
  shows "split_max CHR ''-'' 2 (''custom-'' @ c @ ''-'' @ m) = [''custom'', c, m]"
proof -
  have "split_max CHR ''-'' (Suc (Suc 0)) (''custom'' @ CHR ''-'' # (c @ CHR ''-'' # m)) =
        ''custom'' # split_max CHR ''-'' (Suc 0) (c @ CHR ''-'' # m)"
    by (rule split_max_at_sep) simp
  also have "split_max CHR ''-'' (Suc 0) (c @ CHR ''-'' # m) = c # split_max CHR ''-'' 0 m"
    using assms by (rule split_max_at_sep)
  finally show ?thesis by (simp add: numeral_2_eq_2)
qed

lemma parse_machine_type_stripped:
  assumes "\<not> contains t ''n2d-''" and "s = t \<or> s = ''n2d-'' @ t"
  shows "replace ''n2d-'' [] s = t"
  using assms replace_absent [of t "''n2d-''" "[]"] replace_prefix [of "''n2d-''" "[]" t]
  by auto

text \<open>
  C1, as amended. Let \<open>s\<close> be \<open>t\<close> or \<open>"n2d-"\<close> followed by \<open>t\<close>, where \<open>"n2d-"\<close> does not occur in
  \<open>t\<close>. If \<open>t\<close> is \<open>custom-<c>-<m>\<close>, where \<open>c\<close> contains no \<open>-\<close> and is accepted by \<open>int\<close>, and
  \<open>m\<close> is accepted by \<open>float\<close>, then \<open>_parse_machine_type(s)\<close> returns \<open>(int(c), float(m) / 1024)\<close>.
  If \<open>t\<close> is of any other shape, \<open>_parse_machine_type(s)\<close> fails with \<open>TNUCostException\<close>.
  Nothing is said of a string in which \<open>"n2d-"\<close> occurs elsewhere than once, in front.
\<close>

theorem parse_machine_type_shapes:
  assumes "\<not> contains t ''n2d-''" and "s = t \<or> s = ''n2d-'' @ t"
  shows "(\<forall>c m ci mf. t = ''custom-'' @ c @ ''-'' @ m \<and> CHR ''-'' \<notin> set c \<and>
            int_of_str E c = Some ci \<and> float_of_str E m = Some mf \<longrightarrow>
            parse_machine_type E s = Inr (ci, mf / 1024)) \<and>
         ((\<nexists>c m. t = ''custom-'' @ c @ ''-'' @ m \<and> CHR ''-'' \<notin> set c \<and>
            int_of_str E c \<noteq> None \<and> float_of_str E m \<noteq> None) \<longrightarrow>
          (\<exists>msg. parse_machine_type E s = Inl (TNUCostException msg)))"
proof (intro conjI allI impI)
  fix c m ci mf
  assume a: "t = ''custom-'' @ c @ ''-'' @ m \<and> CHR ''-'' \<notin> set c \<and>
            int_of_str E c = Some ci \<and> float_of_str E m = Some mf"
  have r: "replace ''n2d-'' [] s = ''custom-'' @ c @ ''-'' @ m"
    using parse_machine_type_stripped [OF assms] a by simp
  have "split_max CHR ''-'' 2 (''custom-'' @ c @ ''-'' @ m) = [''custom'', c, m]"
    using a by (intro split_max_2_custom) simp
  with a show "parse_machine_type E s = Inr (ci, mf / 1024)"
    unfolding parse_machine_type_def r by (simp add: Let_def)
next
  assume n: "\<nexists>c m. t = ''custom-'' @ c @ ''-'' @ m \<and> CHR ''-'' \<notin> set c \<and>
            int_of_str E c \<noteq> None \<and> float_of_str E m \<noteq> None"
  have r: "replace ''n2d-'' [] s = t" by (rule parse_machine_type_stripped [OF assms])
  show "\<exists>msg. parse_machine_type E s = Inl (TNUCostException msg)"
  proof (rule ccontr)
    assume f: "\<nexists>msg. parse_machine_type E s = Inl (TNUCostException msg)"
    then have len: "length (split_max CHR ''-'' 2 t) = 3"
      and hd: "split_max CHR ''-'' 2 t ! 0 = ''custom''"
      and i: "int_of_str E (split_max CHR ''-'' 2 t ! 1) \<noteq> None"
      and fl: "float_of_str E (split_max CHR ''-'' 2 t ! 2) \<noteq> None"
      unfolding parse_machine_type_def r
      by (auto simp: Let_def split: if_splits option.splits)
    from len obtain a b c where abc: "split_max CHR ''-'' 2 t = [a, b, c]"
      by (cases "split_max CHR ''-'' 2 t" rule: list.exhaust; simp)
         (metis (no_types) Suc_length_conv length_0_conv numeral_2_eq_2)
    from split_max_2_three_parts [OF abc] hd i fl abc
    have "t = ''custom-'' @ b @ ''-'' @ c \<and> CHR ''-'' \<notin> set b \<and>
          int_of_str E b \<noteq> None \<and> float_of_str E c \<noteq> None"
      by simp
    with n show False by blast
  qed
qed

theorem parse_machine_type_shapes_witness:
  "\<not> contains ''custom-4-1024'' ''n2d-'' \<and>
   int_of_str sample_env ''4'' = Some 4 \<and> float_of_str sample_env ''1024'' = Some 1024 \<and>
   parse_machine_type sample_env ''custom-4-1024'' = Inr (4, 1024 / 1024) \<and>
   parse_machine_type sample_env ''n2d-custom-4-1024'' = Inr (4, 1024 / 1024) \<and>
   \<not> contains ''n1-standard-4'' ''n2d-'' \<and>
   (\<exists>msg. parse_machine_type sample_env ''n1-standard-4'' = Inl (TNUCostException msg))"
proof -
  have h1: "\<not> contains ''custom-4-1024'' ''n2d-''" by (simp add: startswith_def)
  have h2: "\<not> contains ''n1-standard-4'' ''n2d-''" by (simp add: startswith_def)
  have i: "int_of_str sample_env ''4'' = Some 4" by (simp add: sample_defs)
  have f: "float_of_str sample_env ''1024'' = Some 1024" by (simp add: sample_defs)
  have t: "''custom-4-1024'' = ''custom-'' @ ''4'' @ ''-'' @ ''1024'' \<and> CHR ''-'' \<notin> set ''4''"
    by simp
  have a: "''custom-4-1024'' = ''custom-4-1024'' \<or> ''custom-4-1024'' = ''n2d-'' @ ''custom-4-1024''"
    by simp
  have b: "''n2d-custom-4-1024'' = ''custom-4-1024'' \<or> ''n2d-custom-4-1024'' = ''n2d-'' @ ''custom-4-1024''"
    by simp
  have c: "''n1-standard-4'' = ''n1-standard-4'' \<or> ''n1-standard-4'' = ''n2d-'' @ ''n1-standard-4''"
    by simp
  have n: "\<nexists>c m. ''n1-standard-4'' = ''custom-'' @ c @ ''-'' @ m \<and> CHR ''-'' \<notin> set c \<and>
            int_of_str sample_env c \<noteq> None \<and> float_of_str sample_env m \<noteq> None"
    by simp
  from parse_machine_type_shapes [OF h1 a, of sample_env] t i f
  have r1: "parse_machine_type sample_env ''custom-4-1024'' = Inr (4, 1024 / 1024)" by blast
  from parse_machine_type_shapes [OF h1 b, of sample_env] t i f
  have r2: "parse_machine_type sample_env ''n2d-custom-4-1024'' = Inr (4, 1024 / 1024)" by blast
  from parse_machine_type_shapes [OF h2 c, of sample_env] n
  have r3: "\<exists>msg. parse_machine_type sample_env ''n1-standard-4'' = Inl (TNUCostException msg)"
    by blast
  from h1 h2 i f r1 r2 r3 show ?thesis by blast
qed

text \<open>
  The claim as stated fails for a negative integer \<open>c\<close>: the string is split at the first
  two \<open>-\<close>, so that \<open>custom--4-1024\<close> has the parts \<open>custom\<close>, the empty string and \<open>4-1024\<close>.
\<close>

theorem negative_cpu_count_is_rejected:
  "int_of_str sample_env ''-4'' = Some (- 4) \<and>
   float_of_str sample_env ''1024'' = Some 1024 \<and>
   parse_machine_type sample_env ''custom--4-1024'' =
     Inl (TNUCostException (''Cannot parse cpus and memory from '' @ quoted ''custom--4-1024''))"
  by (simp add: parse_machine_type_def sample_defs startswith_def Let_def numeral_2_eq_2)

text \<open>
  \<open>str.replace\<close> removes every occurrence of \<open>"n2d-"\<close>, not only one in front, though the
  comment in the source speaks of a prefix: these two strings are parsed as
  \<open>custom-4-1024\<close>.
\<close>

lemma inner_occurrence_is_removed:
  "parse_machine_type sample_env ''custom-n2d-4-1024'' = Inr (4, 1) \<and>
   parse_machine_type sample_env ''n2d-n2d-custom-4-1024'' = Inr (4, 1)"
  by (simp add: parse_machine_type_def sample_defs startswith_def Let_def numeral_2_eq_2)

section \<open>Properties of the metadata fetcher\<close>

lemma map_of_filter_other:
  "k' \<noteq> k \<Longrightarrow> map_of (filter (\<lambda>(k', v'). k' \<noteq> k) cache) k' = map_of cache k'"
  by (induction cache) auto

lemma map_of_move_to_front:
  "map_of cache k = Some v \<Longrightarrow>
   map_of ((k, v) # filter (\<lambda>(k', v'). k' \<noteq> k) cache) k' = map_of cache k'"
  by (cases "k' = k") (simp_all add: map_of_filter_other)

lemma keys_move_to_front:
  "map_of cache k = Some v \<Longrightarrow>
   fst ` set ((k, v) # filter (\<lambda>(k', v'). k' \<noteq> k) cache) = fst ` set cache"
  by (force dest: map_of_SomeD)

lemma distinct_move_to_front:
  "distinct (map fst cache) \<Longrightarrow>
   distinct (map fst ((k, v) # filter (\<lambda>(k', v'). k' \<noteq> k) cache))"
  by (induction cache) auto

lemma lru_cache_hit:
  "map_of cache k = Some v \<Longrightarrow>
   lru_cache m f k (cache, net) = (Inr v, (k, v) # filter (\<lambda>(k', v'). k' \<noteq> k) cache, net)"
  by (simp add: lru_cache_def)

lemma lru_cache_miss_failure:
  "map_of cache k = None \<Longrightarrow> f k net = (Inl e, net') \<Longrightarrow>
   lru_cache m f k (cache, net) = (Inl e, cache, net')"
  by (simp add: lru_cache_def)

lemma lru_cache_miss_success:
  "map_of cache k = None \<Longrightarrow> f k net = (Inr v, net') \<Longrightarrow>
   lru_cache m f k (cache, net) =
     (Inr v, (k, v) # (if m \<le> length cache then butlast cache else cache), net')"
  by (simp add: lru_cache_def)

lemma cache_not_full:
  assumes "cache_inv K rq cache net" and "finite K" and "card K \<le> m" and "k \<in> K"
    and "map_of cache k = None"
  shows "length cache < m"
proof -
  from assms(1) have d: "distinct (map fst cache)" and s: "fst ` set cache \<subseteq> K"
    by (simp_all add: cache_inv_def)
  from assms(5) have "k \<notin> fst ` set cache" by (simp add: map_of_eq_None_iff)
  with s assms(4) have "fst ` set cache \<subset> K" by blast
  with assms(2) have "card (fst ` set cache) < card K" by (rule psubset_card_mono)
  moreover from d have "card (fst ` set cache) = length cache"
    using distinct_card [of "map fst cache"] by simp
  ultimately show ?thesis using assms(3) by simp
qed

lemma lru_cache_step:
  assumes inv: "cache_inv K rq cache net" and fin: "finite K" and card: "card K \<le> m"
    and k: "k \<in> K" and inj: "inj rq"
    and f: "\<exists>r. f k net = (r, net @ [(rq k, \<not> isl r)])"
    and run: "lru_cache m f k (cache, net) = (r, cache', net')"
  shows "cache_inv K rq cache' net' \<and>
         (\<forall>k' v. map_of cache k' = Some v \<longrightarrow> map_of cache' k' = Some v) \<and>
         (\<forall>v. r = Inr v \<longrightarrow> map_of cache' k = Some v) \<and>
         (net' = net \<or> (\<exists>b. net' = net @ [(rq k, b)]))"
proof (cases "map_of cache k")
  case (Some v)
  from lru_cache_hit [OF Some, of m f net] run
  have r: "r = Inr v" and c: "cache' = (k, v) # filter (\<lambda>(k', v'). k' \<noteq> k) cache"
    and n: "net' = net" by simp_all
  have "cache_inv K rq cache' net'"
    using inv keys_move_to_front [OF Some] distinct_move_to_front [of cache k v]
    unfolding cache_inv_def c n by simp
  moreover have "\<forall>k' v. map_of cache k' = Some v \<longrightarrow> map_of cache' k' = Some v"
    unfolding c using map_of_move_to_front [OF Some] by simp
  moreover have "\<forall>v. r = Inr v \<longrightarrow> map_of cache' k = Some v"
    unfolding c r by simp
  ultimately show ?thesis using n by blast
next
  case None
  from f obtain r0 where r0: "f k net = (r0, net @ [(rq k, \<not> isl r0)])" by blast
  show ?thesis
  proof (cases r0)
    case (Inl e)
    from lru_cache_miss_failure [OF None, of f net e] r0 Inl run
    have r: "r = Inl e" and c: "cache' = cache" and n: "net' = net @ [(rq k, False)]"
      by simp_all
    have "cache_inv K rq cache' net'"
      using inv unfolding cache_inv_def c n by simp
    then show ?thesis using r c n by auto
  next
    case (Inr v)
    from cache_not_full [OF inv fin card k None] have "\<not> m \<le> length cache" by simp
    with lru_cache_miss_success [OF None, of f net v] r0 Inr run
    have r: "r = Inr v" and c: "cache' = (k, v) # cache" and n: "net' = net @ [(rq k, True)]"
      by simp_all
    from None have kn: "k \<notin> fst ` set cache" by (simp add: map_of_eq_None_iff)
    from inv kn have absent: "(rq k, True) \<notin> set net" by (auto simp: cache_inv_def)
    then have zero: "count_list net (rq k, True) = 0" by (simp add: count_list_0_iff)
    have "cache_inv K rq cache' net'"
      unfolding cache_inv_def c n
    proof (intro conjI allI impI)
      show "distinct (map fst ((k, v) # cache))"
        using inv kn by (simp add: cache_inv_def)
      show "fst ` set ((k, v) # cache) \<subseteq> K"
        using inv k by (simp add: cache_inv_def)
    next
      fix k' assume "(rq k', True) \<in> set (net @ [(rq k, True)])"
      then have "k' = k \<or> (rq k', True) \<in> set net" using inj by (auto dest: injD)
      then show "k' \<in> fst ` set ((k, v) # cache)"
        using inv by (auto simp: cache_inv_def)
    next
      fix k'
      show "count_list (net @ [(rq k, True)]) (rq k', True) \<le> 1"
      proof (cases "k' = k")
        case True
        with zero show ?thesis by simp
      next
        case False
        with inj have "rq k' \<noteq> rq k" by (auto dest: injD)
        with inv show ?thesis by (simp add: cache_inv_def)
      qed
    qed
    moreover have "\<forall>k' v'. map_of cache k' = Some v' \<longrightarrow> map_of cache' k' = Some v'"
      unfolding c using None by auto
    ultimately show ?thesis using r c n by auto
  qed
qed

lemma cache_inv_foreign:
  assumes "cache_inv K rq cache net" and "\<forall>k. q \<noteq> rq k"
  shows "cache_inv K rq cache (net @ [(q, b)])"
  using assms unfolding cache_inv_def by auto

lemma fetch_submission_logs:
  "\<exists>r. fetch_submission S k net = (r, net @ [(submission_request k, \<not> isl r)])"
  by (cases k) (auto simp: fetch_submission_def submission_request_def Let_def split: option.splits)

lemma fetch_workflow_logs:
  "\<exists>r. fetch_workflow S k net = (r, net @ [(workflow_request k, \<not> isl r)])"
  by (cases k) (auto simp: fetch_workflow_def workflow_request_def Let_def split: option.splits)

lemma inj_submission_request: "inj submission_request"
  by (auto simp: inj_def submission_request_def)

lemma inj_workflow_request: "inj workflow_request"
  by (auto simp: inj_def workflow_request_def)

lemma requests_differ: "submission_request k \<noteq> workflow_request k'"
  by (cases k; cases k') (simp add: submission_request_def workflow_request_def)

lemma cache_inv_other_function:
  assumes "cache_inv K rq cache net" and "net' = net \<or> (\<exists>b. net' = net @ [(q, b)])"
    and "\<forall>k. q \<noteq> rq k"
  shows "cache_inv K rq cache net'"
  using assms cache_inv_foreign [of K rq cache net q] by auto

lemma run_call_step:
  assumes inv: "process_inv Ks Kw p"
    and fin: "finite Ks" "finite Kw" and card: "card Ks \<le> 128" "card Kw \<le> 128"
    and key: "key_in Ks Kw c"
    and run: "run_call S c p = (r, p')"
  shows "process_inv Ks Kw p' \<and>
         (\<forall>c' r'. cached p c' = Some r' \<longrightarrow> cached p' c' = Some r') \<and>
         (succeeded r \<longrightarrow> cached p' c = Some r)"
proof (cases c)
  case (Call_get_submission k)
  obtain r0 cache' net' where l: "lru_cache 128 (fetch_submission S) k (submission_cache p, requests p) =
      (r0, cache', net')" by (metis prod_cases3)
  with run Call_get_submission have r: "r = Submission r0"
    and p': "p' = p\<lparr>submission_cache := cache', requests := net'\<rparr>"
    by (auto simp: get_submission_def)
  from inv have i1: "cache_inv Ks submission_request (submission_cache p) (requests p)"
    and i2: "cache_inv Kw workflow_request (workflow_cache p) (requests p)"
    by (simp_all add: process_inv_def)
  from key Call_get_submission have k: "k \<in> Ks" by (simp add: key_in_def)
  from lru_cache_step [OF i1 fin(1) card(1) k inj_submission_request fetch_submission_logs l]
  have a: "cache_inv Ks submission_request cache' net'"
    and b: "\<forall>k' v. map_of (submission_cache p) k' = Some v \<longrightarrow> map_of cache' k' = Some v"
    and c: "\<forall>v. r0 = Inr v \<longrightarrow> map_of cache' k = Some v"
    and d: "net' = requests p \<or> (\<exists>b. net' = requests p @ [(submission_request k, b)])"
    by blast+
  have "cache_inv Kw workflow_request (workflow_cache p) net'"
    using i2 d by (rule cache_inv_other_function) (simp add: requests_differ)
  with a have "process_inv Ks Kw p'" by (simp add: process_inv_def p')
  moreover have "\<forall>c' r'. cached p c' = Some r' \<longrightarrow> cached p' c' = Some r'"
  proof (intro allI impI)
    fix c' r' assume "cached p c' = Some r'"
    then show "cached p' c' = Some r'"
      using b by (cases c') (auto simp: cached_def p')
  qed
  moreover have "succeeded r \<longrightarrow> cached p' c = Some r"
    using c by (cases r0) (auto simp: succeeded_def r cached_def p' Call_get_submission)
  ultimately show ?thesis by blast
next
  case (Call_get_workflow k)
  obtain r0 cache' net' where l: "lru_cache 128 (fetch_workflow S) k (workflow_cache p, requests p) =
      (r0, cache', net')" by (metis prod_cases3)
  with run Call_get_workflow have r: "r = Workflow r0"
    and p': "p' = p\<lparr>workflow_cache := cache', requests := net'\<rparr>"
    by (auto simp: get_workflow_def)
  from inv have i1: "cache_inv Ks submission_request (submission_cache p) (requests p)"
    and i2: "cache_inv Kw workflow_request (workflow_cache p) (requests p)"
    by (simp_all add: process_inv_def)
  from key Call_get_workflow have k: "k \<in> Kw" by (simp add: key_in_def)
  from lru_cache_step [OF i2 fin(2) card(2) k inj_workflow_request fetch_workflow_logs l]
  have a: "cache_inv Kw workflow_request cache' net'"
    and b: "\<forall>k' v. map_of (workflow_cache p) k' = Some v \<longrightarrow> map_of cache' k' = Some v"
    and c: "\<forall>v. r0 = Inr v \<longrightarrow> map_of cache' k = Some v"
    and d: "net' = requests p \<or> (\<exists>b. net' = requests p @ [(workflow_request k, b)])"
    by blast+
  have "cache_inv Ks submission_request (submission_cache p) net'"
    using i1 d by (rule cache_inv_other_function) (simp add: requests_differ [symmetric])
  with a have "process_inv Ks Kw p'" by (simp add: process_inv_def p')
  moreover have "\<forall>c' r'. cached p c' = Some r' \<longrightarrow> cached p' c' = Some r'"
  proof (intro allI impI)
    fix c' r' assume "cached p c' = Some r'"
    then show "cached p' c' = Some r'"
      using b by (cases c') (auto simp: cached_def p')
  qed
  moreover have "succeeded r \<longrightarrow> cached p' c = Some r"
    using c by (cases r0) (auto simp: succeeded_def r cached_def p' Call_get_workflow)
  ultimately show ?thesis by blast
qed

lemma run_call_hit:
  assumes "cached p c = Some r"
  shows "fst (run_call S c p) = r \<and> requests (snd (run_call S c p)) = requests p"
proof (cases c)
  case (Call_get_submission k)
  with assms obtain v where "map_of (submission_cache p) k = Some v" and "r = Submission (Inr v)"
    by (auto simp: cached_def)
  then show ?thesis
    by (simp add: Call_get_submission get_submission_def lru_cache_hit)
next
  case (Call_get_workflow k)
  with assms obtain v where "map_of (workflow_cache p) k = Some v" and "r = Workflow (Inr v)"
    by (auto simp: cached_def)
  then show ?thesis
    by (simp add: Call_get_workflow get_workflow_def lru_cache_hit)
qed

lemma final_process_append:
  "final_process S (xs @ ys) p = final_process S ys (final_process S xs p)"
  by (induction xs arbitrary: p) simp_all

lemma final_process_take_Suc:
  "i < length cs \<Longrightarrow>
   final_process S (take (Suc i) cs) p = snd (run_call S (cs ! i) (final_process S (take i cs) p))"
  by (simp add: take_Suc_conv_app_nth final_process_append)

lemma run_calls_nth:
  "i < length cs \<Longrightarrow>
   run_calls S cs p ! i = run_call S (cs ! i) (final_process S (take i cs) p)"
proof (induction cs arbitrary: i p)
  case Nil
  then show ?case by simp
next
  case (Cons c cs)
  show ?case
  proof (cases i)
    case 0
    then show ?thesis by (simp split: prod.splits)
  next
    case (Suc n)
    with Cons.prems have "n < length cs" by simp
    from Cons.IH [OF this] Suc show ?thesis by (simp split: prod.splits)
  qed
qed

lemma final_process_inv:
  assumes "process_inv Ks Kw p" and "finite Ks" "finite Kw" and "card Ks \<le> 128" "card Kw \<le> 128"
    and "\<forall>c \<in> set cs. key_in Ks Kw c"
  shows "process_inv Ks Kw (final_process S cs p) \<and>
         (\<forall>c r. cached p c = Some r \<longrightarrow> cached (final_process S cs p) c = Some r)"
  using assms(1,6)
proof (induction cs arbitrary: p)
  case Nil
  then show ?case by simp
next
  case (Cons c cs)
  from Cons.prems have k: "key_in Ks Kw c" by simp
  have run: "run_call S c p = (fst (run_call S c p), snd (run_call S c p))" by simp
  from run_call_step [OF Cons.prems(1) assms(2,3,4,5) k run]
  have a: "process_inv Ks Kw (snd (run_call S c p))"
    and b: "\<forall>c' r'. cached p c' = Some r' \<longrightarrow> cached (snd (run_call S c p)) c' = Some r'"
    by blast+
  from Cons.IH [OF a] Cons.prems(2) b show ?case by simp
qed

lemma request_cases: "(\<exists>k. q = submission_request k) \<or> (\<exists>k. q = workflow_request k)"
proof (cases q)
  case (Get_submission ns ws sid)
  then have "q = submission_request (sid, ws, ns)" by (simp add: submission_request_def)
  then show ?thesis by blast
next
  case (Get_workflow_metadata ns ws sid wid)
  then have "q = workflow_request (sid, wid, ws, ns)" by (simp add: workflow_request_def)
  then show ?thesis by blast
qed

lemma key_in_keys: "c \<in> set cs \<Longrightarrow> key_in (set (submission_keys cs)) (set (workflow_keys cs)) c"
  by (cases c) (force simp: key_in_def submission_keys_def workflow_keys_def)+

lemma new_process_inv: "process_inv Ks Kw new_process"
  by (simp add: process_inv_def cache_inv_def new_process_def)

text \<open>
  C5, as amended. \<open>get_submission\<close> and \<open>get_workflow\<close> memoize their results per argument
  tuple in a cache of 128 entries each, which evicts the least recently used entry when
  it is full. In a process that asks for at most 128 different keys of each function,
  nothing is evicted: a call that repeats an earlier, successful call returns the value
  fetched then and makes no request, and no request is answered with success twice, so
  that each key is fetched at most once.
\<close>

theorem repeated_call_is_served_from_cache:
  assumes "card (set (submission_keys cs)) \<le> 128" and "card (set (workflow_keys cs)) \<le> 128"
    and "i < j" and "j < length cs" and "cs ! i = cs ! j"
    and "succeeded (fst (run_calls S cs new_process ! i))"
  shows "fst (run_calls S cs new_process ! j) = fst (run_calls S cs new_process ! i) \<and>
         requests (final_process S (take (Suc j) cs) new_process) =
           requests (final_process S (take j cs) new_process) \<and>
         (\<forall>q. count_list (requests (final_process S cs new_process)) (q, True) \<le> 1)"
proof -
  let ?Ks = "set (submission_keys cs)" and ?Kw = "set (workflow_keys cs)"
  let ?c = "cs ! i"
  let ?pi = "final_process S (take i cs) new_process"
  let ?pi' = "final_process S (take (Suc i) cs) new_process"
  let ?pj = "final_process S (take j cs) new_process"
  have fin: "finite ?Ks" "finite ?Kw" by simp_all
  have keys: "\<forall>c \<in> set cs. key_in ?Ks ?Kw c" by (simp add: key_in_keys)
  have keys_take: "\<And>n. \<forall>c \<in> set (take n cs). key_in ?Ks ?Kw c"
    using keys by (auto dest: in_set_takeD)
  have keys_drop: "\<And>n m. \<forall>c \<in> set (drop m (take n cs)). key_in ?Ks ?Kw c"
    using keys by (auto dest!: in_set_dropD in_set_takeD)
  note inv = final_process_inv [OF _ fin assms(1,2)]
  have i: "i < length cs" using assms(3,4) by simp
  have inv_i: "process_inv ?Ks ?Kw ?pi"
    using inv [OF new_process_inv keys_take] by blast
  have ri: "run_calls S cs new_process ! i = run_call S ?c ?pi"
    using i by (rule run_calls_nth)
  have pi': "?pi' = snd (run_call S ?c ?pi)"
    using i by (rule final_process_take_Suc)
  have run: "run_call S ?c ?pi = (fst (run_calls S cs new_process ! i), ?pi')"
    by (simp add: ri pi')
  from run_call_step [OF inv_i fin assms(1,2) _ run] keys i assms(6)
  have inv_i': "process_inv ?Ks ?Kw ?pi'"
    and c_i': "cached ?pi' ?c = Some (fst (run_calls S cs new_process ! i))"
    by simp_all
  have "take (Suc i) (take j cs) = take (Suc i) cs"
    using assms(3) by (simp add: min_def)
  with append_take_drop_id [of "Suc i" "take j cs"]
  have split: "take (Suc i) cs @ drop (Suc i) (take j cs) = take j cs" by simp
  have "final_process S (take (Suc i) cs @ drop (Suc i) (take j cs)) new_process =
        final_process S (drop (Suc i) (take j cs)) ?pi'"
    by (rule final_process_append)
  then have "?pj = final_process S (drop (Suc i) (take j cs)) ?pi'"
    by (simp only: split)
  with inv [OF inv_i' keys_drop, of S "Suc i" j] c_i'
  have c_j: "cached ?pj ?c = Some (fst (run_calls S cs new_process ! i))" by simp
  have rj: "run_calls S cs new_process ! j = run_call S (cs ! j) ?pj"
    using assms(4) by (rule run_calls_nth)
  have pj': "final_process S (take (Suc j) cs) new_process = snd (run_call S (cs ! j) ?pj)"
    using assms(4) by (rule final_process_take_Suc)
  from run_call_hit [OF c_j, of S] assms(5) rj pj'
  have g1: "fst (run_calls S cs new_process ! j) = fst (run_calls S cs new_process ! i)"
    and g2: "requests (final_process S (take (Suc j) cs) new_process) = requests ?pj"
    by simp_all
  have "process_inv ?Ks ?Kw (final_process S cs new_process)"
    using inv [OF new_process_inv keys] by blast
  then have cs: "\<And>k. count_list (requests (final_process S cs new_process))
                     (submission_request k, True) \<le> 1"
    and cw: "\<And>k. count_list (requests (final_process S cs new_process))
                     (workflow_request k, True) \<le> 1"
    unfolding process_inv_def cache_inv_def by blast+
  have g3: "\<forall>q. count_list (requests (final_process S cs new_process)) (q, True) \<le> 1"
  proof
    fix q
    from request_cases [of q] show "count_list (requests (final_process S cs new_process)) (q, True) \<le> 1"
      using cs cw by (elim disjE exE) simp_all
  qed
  from g1 g2 g3 show ?thesis by blast
qed

theorem repeated_call_is_served_from_cache_witness:
  "fst (run_calls sample_service
          [Call_get_submission (''s1'', None, None),
           Call_get_workflow (''s1'', JStr ''w1'', None, None),
           Call_get_submission (''s1'', None, None)] new_process ! 0) =
     Submission (Inr \<lparr>workflows = []\<rparr>) \<and>
   fst (run_calls sample_service
          [Call_get_submission (''s1'', None, None),
           Call_get_workflow (''s1'', JStr ''w1'', None, None),
           Call_get_submission (''s1'', None, None)] new_process ! 2) =
     Submission (Inr \<lparr>workflows = []\<rparr>) \<and>
   requests (final_process sample_service
          [Call_get_submission (''s1'', None, None),
           Call_get_workflow (''s1'', JStr ''w1'', None, None),
           Call_get_submission (''s1'', None, None)] new_process) =
     [(Get_submission None None ''s1'', True),
      (Get_workflow_metadata None None ''s1'' (JStr ''w1''), True)]"
proof -
  let ?cs = "[Call_get_submission (''s1'', None, None),
              Call_get_workflow (''s1'', JStr ''w1'', None, None),
              Call_get_submission (''s1'', None, None)]"
  have h1: "card (set (submission_keys ?cs)) \<le> 128" by (simp add: submission_keys_def)
  have h2: "card (set (workflow_keys ?cs)) \<le> 128" by (simp add: workflow_keys_def)
  have h3: "(0::nat) < 2" by simp
  have h4: "2 < length ?cs" by simp
  have h5: "?cs ! 0 = ?cs ! 2" by simp
  have first: "run_calls sample_service ?cs new_process ! 0 =
      (Submission (Inr \<lparr>workflows = []\<rparr>),
       \<lparr>submission_cache = [((''s1'', None, None), \<lparr>workflows = []\<rparr>)], workflow_cache = [],
        requests = [(Get_submission None None ''s1'', True)]\<rparr>)"
    by (simp add: get_submission_def lru_cache_def fetch_submission_def sample_service_def
        new_process_def)
  have two: "final_process sample_service (take 2 ?cs) new_process =
      \<lparr>submission_cache = [((''s1'', None, None), \<lparr>workflows = []\<rparr>)],
       workflow_cache = [((''s1'', JStr ''w1'', None, None), \<lparr>calls = []\<rparr>)],
       requests = [(Get_submission None None ''s1'', True),
                   (Get_workflow_metadata None None ''s1'' (JStr ''w1''), True)]\<rparr>"
    by (simp add: get_submission_def get_workflow_def lru_cache_def fetch_submission_def
        fetch_workflow_def sample_service_def new_process_def numeral_2_eq_2)
  have h6: "succeeded (fst (run_calls sample_service ?cs new_process ! 0))"
    by (simp only: first) (simp add: succeeded_def)
  have t3: "take (Suc 2) ?cs = ?cs" by simp
  from repeated_call_is_served_from_cache [OF h1 h2 h3 h4 h5 h6]
  have "fst (run_calls sample_service ?cs new_process ! 2) =
          fst (run_calls sample_service ?cs new_process ! 0)"
    and "requests (final_process sample_service (take (Suc 2) ?cs) new_process) =
           requests (final_process sample_service (take 2 ?cs) new_process)"
    by blast+
  then show ?thesis by (simp only: first two t3 fst_conv process.simps)
qed

lemma take_Cons_butlast:
  assumes "0 < m"
  shows "x # (if m \<le> length (take m xs) then butlast (take m xs) else take m xs) = take m (x # xs)"
proof (cases "m \<le> length xs")
  case True
  then have "butlast (take m xs) = take (m - 1) xs" by (simp add: butlast_take)
  with True assms show ?thesis by (simp add: take_Cons')
next
  case False
  with assms show ?thesis by (simp add: take_Cons')
qed

lemma fill_submission_cache:
  assumes "distinct ks"
  shows "final_process sample_service (map Call_get_submission ks) new_process =
         \<lparr>submission_cache = take 128 (rev (map (\<lambda>k. (k, \<lparr>workflows = []\<rparr>)) ks)),
          workflow_cache = [],
          requests = map (\<lambda>k. (submission_request k, True)) ks\<rparr>"
  using assms
proof (induction ks rule: rev_induct)
  case Nil
  show ?case by (simp add: new_process_def)
next
  case (snoc k ks)
  let ?cache = "take 128 (rev (map (\<lambda>k. (k, \<lparr>workflows = []\<rparr>)) ks))"
  let ?net = "map (\<lambda>k. (submission_request k, True)) ks"
  from snoc.prems have d: "distinct ks" and k: "k \<notin> set ks" by simp_all
  have before: "final_process sample_service (map Call_get_submission ks) new_process =
      \<lparr>submission_cache = ?cache, workflow_cache = [], requests = ?net\<rparr>"
    using snoc.IH [OF d] .
  have "fst ` set ?cache \<subseteq> set ks" by (auto dest!: in_set_takeD)
  with k have miss: "map_of ?cache k = None" by (auto simp: map_of_eq_None_iff)
  have fetch: "fetch_submission sample_service k ?net =
      (Inr \<lparr>workflows = []\<rparr>, ?net @ [(submission_request k, True)])"
    by (cases k) (simp add: fetch_submission_def sample_service_def submission_request_def)
  have "lru_cache 128 (fetch_submission sample_service) k (?cache, ?net) =
      (Inr \<lparr>workflows = []\<rparr>,
       (k, \<lparr>workflows = []\<rparr>) # (if 128 \<le> length ?cache then butlast ?cache else ?cache),
       ?net @ [(submission_request k, True)])"
    using miss fetch by (rule lru_cache_miss_success)
  also have "(k, \<lparr>workflows = []\<rparr>) # (if 128 \<le> length ?cache then butlast ?cache else ?cache) =
      take 128 ((k, \<lparr>workflows = []\<rparr>) # rev (map (\<lambda>k. (k, \<lparr>workflows = []\<rparr>)) ks))"
    by (rule take_Cons_butlast) simp
  finally have step: "lru_cache 128 (fetch_submission sample_service) k (?cache, ?net) =
      (Inr \<lparr>workflows = []\<rparr>,
       take 128 ((k, \<lparr>workflows = []\<rparr>) # rev (map (\<lambda>k. (k, \<lparr>workflows = []\<rparr>)) ks)),
       ?net @ [(submission_request k, True)])" .
  show ?case
    by (simp add: final_process_append before get_submission_def step)
qed

lemma distinct_many_submissions: "distinct (many_submissions n)"
  by (simp add: many_submissions_def distinct_map inj_on_def)

lemma many_submissions_hd: "0 < n \<Longrightarrow> many_submissions n = (''a'', None, None) # tl (many_submissions n)"
  by (cases n) (simp_all add: many_submissions_def upt_rec [of 0])

text \<open>
  The claim as stated, for any number of keys, fails: after \<open>get_submission\<close> has been
  called with 129 different submission identifiers, the entry of the first one has been
  evicted, and a call that repeats the first call sends its request again.
\<close>

theorem cache_evicts_after_128_keys:
  "many_submissions 129 ! 0 = (''a'', None, None) \<and>
   (Get_submission None None ''a'', True) \<in> set (requests (final_process sample_service
      (map Call_get_submission (many_submissions 129)) new_process)) \<and>
   requests (final_process sample_service
      (map Call_get_submission (many_submissions 129) @ [Call_get_submission (''a'', None, None)])
      new_process) =
   requests (final_process sample_service
      (map Call_get_submission (many_submissions 129)) new_process) @
     [(Get_submission None None ''a'', True)]"
proof -
  let ?ks = "many_submissions 129"
  let ?k0 = "(''a'', None :: string option, None :: string option)"
  let ?cache = "take 128 (rev (map (\<lambda>k. (k, \<lparr>workflows = []\<rparr>)) ?ks))"
  let ?net = "map (\<lambda>k. (submission_request k, True)) ?ks"
  have ks: "?ks = ?k0 # tl ?ks" by (rule many_submissions_hd) simp
  have len: "length ?ks = 129" by (simp add: many_submissions_def)
  from distinct_many_submissions [of 129] ks have notin: "?k0 \<notin> set (tl ?ks)"
    by (metis distinct.simps(2))
  have state: "final_process sample_service (map Call_get_submission ?ks) new_process =
      \<lparr>submission_cache = ?cache, workflow_cache = [], requests = ?net\<rparr>"
    by (rule fill_submission_cache [OF distinct_many_submissions])
  have "take 128 (rev ?ks) = rev (drop (length ?ks - 128) ?ks)" by (rule take_rev)
  also have "drop (length ?ks - 128) ?ks = tl ?ks" by (simp add: len drop_Suc)
  finally have "take 128 (rev ?ks) = rev (tl ?ks)" .
  moreover have "map fst ?cache = take 128 (rev ?ks)"
    by (simp add: rev_map take_map comp_def)
  ultimately have "map fst ?cache = rev (tl ?ks)" by simp
  then have "set (map fst ?cache) = set (tl ?ks)" by simp
  then have "fst ` set ?cache = set (tl ?ks)" by (simp only: set_map)
  with notin have miss: "map_of ?cache ?k0 = None" by (simp add: map_of_eq_None_iff)
  have fetch: "fetch_submission sample_service ?k0 ?net =
      (Inr \<lparr>workflows = []\<rparr>, ?net @ [(Get_submission None None ''a'', True)])"
    by (simp add: fetch_submission_def sample_service_def)
  have g1: "?ks ! 0 = ?k0" using ks by (metis nth_Cons_0)
  have "?k0 \<in> set ?ks" using ks by (metis list.set_intros(1))
  then have "(submission_request ?k0, True) \<in> set ?net" by (simp only: set_map) (rule imageI)
  then have g2: "(Get_submission None None ''a'', True) \<in> set (requests (final_process sample_service
      (map Call_get_submission ?ks) new_process))"
    by (simp add: state submission_request_def)
  have g3: "requests (final_process sample_service
      (map Call_get_submission ?ks @ [Call_get_submission ?k0]) new_process) =
      requests (final_process sample_service (map Call_get_submission ?ks) new_process) @
        [(Get_submission None None ''a'', True)]"
    by (simp add: final_process_append state get_submission_def
        lru_cache_miss_success [where f = "fetch_submission sample_service" and m = 128,
          OF miss fetch])
  from g1 g2 g3 show ?thesis by blast
qed

section \<open>Properties of the sub-workflow discoverer\<close>

lemma py_set_hashable: "list_all hashable vs \<Longrightarrow> py_set vs = Inr (remdups vs)"
  by (simp add: py_set_def)

lemma references_step: "i \<in> (references W)\<^sup>* `` A \<Longrightarrow> j \<in> set (subworkflow_ids (W i)) \<Longrightarrow>
    j \<in> (references W)\<^sup>* `` A"
  by (auto simp: references_def intro: rtrancl_into_rtrancl)

lemma closed_contains_reachable:
  assumes "A \<subseteq> V" and "\<forall>i \<in> V. set (subworkflow_ids (W i)) \<subseteq> V"
  shows "(references W)\<^sup>* `` A \<subseteq> V"
proof
  fix x assume "x \<in> (references W)\<^sup>* `` A"
  then obtain a where a: "a \<in> A" and r: "(a, x) \<in> (references W)\<^sup>*" by blast
  from r show "x \<in> V"
  proof (induction rule: rtrancl_induct)
    case base
    from a assms(1) show ?case by blast
  next
    case (step y z)
    then show ?case using assms(2) by (auto simp: references_def)
  qed
qed

lemma get_workflow_miss:
  assumes "(sid, i, ws, ns) \<notin> fst ` set (workflow_cache p)"
    and "workflow_response S (length (requests p)) ns ws sid i = Some wm"
  shows "\<exists>cache. get_workflow S (sid, i, ws, ns) p =
           (Inr wm, p\<lparr>workflow_cache := cache,
                      requests := requests p @ [(Get_workflow_metadata ns ws sid i, True)]\<rparr>) \<and>
         fst ` set cache \<subseteq> insert (sid, i, ws, ns) (fst ` set (workflow_cache p))"
proof -
  let ?k = "(sid, i, ws, ns)"
  let ?c = "workflow_cache p"
  from assms(1) have miss: "map_of ?c ?k = None" by (simp add: map_of_eq_None_iff)
  have fetch: "fetch_workflow S ?k (requests p) =
      (Inr wm, requests p @ [(Get_workflow_metadata ns ws sid i, True)])"
    using assms(2) by (simp add: fetch_workflow_def)
  have run: "lru_cache 128 (fetch_workflow S) ?k (?c, requests p) =
      (Inr wm, (?k, wm) # (if 128 \<le> length ?c then butlast ?c else ?c),
       requests p @ [(Get_workflow_metadata ns ws sid i, True)])"
    using miss fetch by (rule lru_cache_miss_success)
  let ?c' = "(?k, wm) # (if 128 \<le> length ?c then butlast ?c else ?c)"
  have "set (if 128 \<le> length ?c then butlast ?c else ?c) \<subseteq> set ?c"
    by (auto dest: in_set_butlastD)
  then have keys: "fst ` set ?c' \<subseteq> insert ?k (fst ` set ?c)" by auto
  have "get_workflow S ?k p =
      (Inr wm, p\<lparr>workflow_cache := ?c',
                 requests := requests p @ [(Get_workflow_metadata ns ws sid i, True)]\<rparr>)"
    using run by (simp add: get_workflow_def)
  with keys show ?thesis by blast
qed

lemma expand_frontier_reaches:
  assumes R: "R = (references W)\<^sup>* `` set init" and fin: "finite R"
    and resp: "\<forall>i \<in> R. \<forall>t. workflow_response S t ns ws sid i = Some (W i)"
    and hash: "\<forall>i \<in> R. hashable i"
    and dist: "distinct (visited @ frontier)"
    and sub: "set (visited @ frontier) \<subseteq> R"
    and init: "set init \<subseteq> set (visited @ frontier)"
    and dom: "dom meta = set visited"
    and meta: "\<forall>i \<in> set visited. meta i = Some (W i) \<and>
                 set (subworkflow_ids (W i)) \<subseteq> set (visited @ frontier)"
    and cache: "fst ` set (workflow_cache p) \<subseteq> (\<lambda>i. (sid, i, ws, ns)) ` set visited"
    and reqs: "requests p = pre @ map (\<lambda>i. (Get_workflow_metadata ns ws sid i, True)) visited"
    and fuel: "card R < fuel + length visited"
  shows "\<exists>meta' p' order.
           expand_frontier fuel (get_metadata_and_subworkflows S sid ws ns) frontier
             (visited @ frontier) (meta, p) = Some (Inr (), meta', p') \<and>
           dom meta' = R \<and> (\<forall>i \<in> R. meta' i = Some (W i)) \<and>
           distinct order \<and> set order = R \<and>
           requests p' = pre @ map (\<lambda>i. (Get_workflow_metadata ns ws sid i, True)) order"
  using dist sub init dom meta cache reqs fuel
proof (induction fuel arbitrary: visited frontier meta p)
  case 0
  from "0.prems"(1) have "distinct visited" by simp
  then have "length visited = card (set visited)" by (simp add: distinct_card)
  also from "0.prems"(2) fin have "\<dots> \<le> card R" by (intro card_mono) auto
  finally show ?case using "0.prems"(8) by simp
next
  case (Suc fuel)
  note dist = Suc.prems(1) and sub = Suc.prems(2) and init = Suc.prems(3)
    and dom = Suc.prems(4) and meta = Suc.prems(5) and cache = Suc.prems(6)
    and reqs = Suc.prems(7) and fuel = Suc.prems(8)
  show ?case
  proof (cases frontier)
    case Nil
    from meta Nil have closed: "\<forall>i \<in> set visited. set (subworkflow_ids (W i)) \<subseteq> set visited"
      by simp
    from init Nil have "set init \<subseteq> set visited" by simp
    from closed_contains_reachable [OF this closed] R have "R \<subseteq> set visited" by simp
    with sub Nil have eq: "set visited = R" by auto
    have "expand_frontier (Suc fuel) (get_metadata_and_subworkflows S sid ws ns) frontier
             (visited @ frontier) (meta, p) = Some (Inr (), meta, p)"
      by (simp add: Nil)
    moreover have "dom meta = R" using dom eq by simp
    moreover have "\<forall>i \<in> R. meta i = Some (W i)" using meta eq by simp
    moreover have "distinct visited" using dist by simp
    ultimately show ?thesis using eq reqs by blast
  next
    case (Cons i rest)
    let ?k = "(sid, i, ws, ns)"
    let ?disc = "visited @ frontier"
    let ?ids = "remdups (subworkflow_ids (W i))"
    let ?new = "remdups (filter (\<lambda>x. x \<notin> set ?disc) ?ids)"
    from sub Cons have iR: "i \<in> R" by simp
    from dist Cons have inew: "i \<notin> set visited" by auto
    from iR have idsR: "set (subworkflow_ids (W i)) \<subseteq> R"
      unfolding R by (auto intro: references_step)
    from inew cache have "?k \<notin> fst ` set (workflow_cache p)" by auto
    from get_workflow_miss [OF this] resp iR
    obtain c' where gw: "get_workflow S ?k p =
           (Inr (W i), p\<lparr>workflow_cache := c',
                      requests := requests p @ [(Get_workflow_metadata ns ws sid i, True)]\<rparr>)"
      and c': "fst ` set c' \<subseteq> insert ?k (fst ` set (workflow_cache p))"
      by blast
    let ?p' = "p\<lparr>workflow_cache := c',
                  requests := requests p @ [(Get_workflow_metadata ns ws sid i, True)]\<rparr>"
    let ?meta' = "meta(i \<mapsto> W i)"
    from idsR hash have "list_all hashable (subworkflow_ids (W i))"
      by (auto simp: list_all_iff)
    then have ps: "py_set (subworkflow_ids (W i)) = Inr ?ids" by (rule py_set_hashable)
    have step: "get_metadata_and_subworkflows S sid ws ns i (meta, p) = (Inr ?ids, ?meta', ?p')"
      by (simp add: get_metadata_and_subworkflows_def gw ps)
    have unfold: "expand_frontier (Suc fuel) (get_metadata_and_subworkflows S sid ws ns) frontier
             (visited @ frontier) (meta, p) =
          expand_frontier fuel (get_metadata_and_subworkflows S sid ws ns) (rest @ ?new)
             ((visited @ [i]) @ (rest @ ?new)) (?meta', ?p')"
      by (simp add: Cons step Let_def)
    have d': "distinct ((visited @ [i]) @ (rest @ ?new))"
      using dist Cons by auto
    have s': "set ((visited @ [i]) @ (rest @ ?new)) \<subseteq> R"
      using sub Cons idsR by auto
    have i': "set init \<subseteq> set ((visited @ [i]) @ (rest @ ?new))"
      using init Cons by auto
    have dom': "dom ?meta' = set (visited @ [i])" using dom by auto
    have m': "\<forall>j \<in> set (visited @ [i]). ?meta' j = Some (W j) \<and>
                 set (subworkflow_ids (W j)) \<subseteq> set ((visited @ [i]) @ (rest @ ?new))"
    proof
      fix j assume j: "j \<in> set (visited @ [i])"
      show "?meta' j = Some (W j) \<and>
                 set (subworkflow_ids (W j)) \<subseteq> set ((visited @ [i]) @ (rest @ ?new))"
      proof (cases "j = i")
        case True
        have "set (subworkflow_ids (W i)) \<subseteq> set ?disc \<union> set ?new" by auto
        then show ?thesis using True Cons by auto
      next
        case False
        with j have "j \<in> set visited" by simp
        with meta have "meta j = Some (W j)"
          and "set (subworkflow_ids (W j)) \<subseteq> set (visited @ frontier)" by blast+
        then show ?thesis using False Cons by auto
      qed
    qed
    have c'': "fst ` set (workflow_cache ?p') \<subseteq> (\<lambda>i. (sid, i, ws, ns)) ` set (visited @ [i])"
      using c' cache by auto
    have r': "requests ?p' = pre @ map (\<lambda>i. (Get_workflow_metadata ns ws sid i, True)) (visited @ [i])"
      using reqs by simp
    have f': "card R < fuel + length (visited @ [i])" using fuel by simp
    show ?thesis unfolding unfold by (rule Suc.IH [OF d' s' i' dom' m' c'' r' f'])
  qed
qed

lemma get_submission_first:
  assumes "submission_response S 0 ns ws sid = Some sub"
  shows "get_submission S (sid, ws, ns) new_process =
         (Inr sub, \<lparr>submission_cache = [((sid, ws, ns), sub)], workflow_cache = [],
                    requests = [(Get_submission ns ws sid, True)]\<rparr>)"
  using assms
  by (simp add: get_submission_def lru_cache_def fetch_submission_def new_process_def)

text \<open>
  C9. Let the submission's workflow identifiers and the sub-workflow identifiers that can
  be reached from them through call attempts be finitely many strings, and let the service
  answer the request for each of them with its metadata \<open>W i\<close>. In a new process, with the
  expansion function invoked once for each newly discovered identifier,
  \<open>get_all_workflows\<close> returns (given fuel for one expansion more than there are
  identifiers) a mapping whose keys are exactly these identifiers, each with its
  metadata; the entries of the submission's workflow list without a \<open>workflowId\<close> are
  ignored. The requests of the process are the one for the submission and then exactly
  one, successful, for each of the identifiers.
\<close>

theorem get_all_workflows_finds_reachable:
  assumes "submission_response S 0 ns ws sid = Some sub"
    and "R = reachable_workflows W sub"
    and "finite R"
    and "\<forall>i \<in> R. \<exists>s. i = JStr s"
    and "\<forall>i \<in> R. \<forall>t. workflow_response S t ns ws sid i = Some (W i)"
    and "card R < fuel"
  shows "\<exists>meta p order.
           get_all_workflows S fuel sid ws ns new_process = Some (Inr meta, p) \<and>
           dom meta = R \<and> (\<forall>i \<in> R. meta i = Some (W i)) \<and>
           distinct order \<and> set order = R \<and>
           requests p = (Get_submission ns ws sid, True) #
             map (\<lambda>i. (Get_workflow_metadata ns ws sid i, True)) order"
proof -
  let ?init = "remdups (workflow_ids sub)"
  let ?p1 = "\<lparr>submission_cache = [((sid, ws, ns), sub)], workflow_cache = [],
              requests = [(Get_submission ns ws sid, True)]\<rparr>"
  have R: "R = (references W)\<^sup>* `` set ?init"
    using assms(2) by (simp add: reachable_workflows_def)
  have hash: "\<forall>i \<in> R. hashable i"
    using assms(4) by (auto simp: hashable_def)
  have initR: "set (workflow_ids sub) \<subseteq> R" unfolding R by auto
  with hash have "list_all hashable (workflow_ids sub)" by (auto simp: list_all_iff)
  then have ps: "py_set (workflow_ids sub) = Inr ?init" by (rule py_set_hashable)
  have "\<exists>meta' p' order.
           expand_frontier fuel (get_metadata_and_subworkflows S sid ws ns) ?init
             ([] @ ?init) (Map.empty, ?p1) = Some (Inr (), meta', p') \<and>
           dom meta' = R \<and> (\<forall>i \<in> R. meta' i = Some (W i)) \<and>
           distinct order \<and> set order = R \<and>
           requests p' = [(Get_submission ns ws sid, True)] @
             map (\<lambda>i. (Get_workflow_metadata ns ws sid i, True)) order"
  proof (rule expand_frontier_reaches [OF R assms(3) assms(5) hash])
    show "distinct ([] @ ?init)" by simp
    show "set ([] @ ?init) \<subseteq> R" using initR by simp
    show "set ?init \<subseteq> set ([] @ ?init)" by simp
    show "dom (Map.empty :: json \<rightharpoonup> workflow_metadata) = set []" by simp
    show "\<forall>i \<in> set []. (Map.empty :: json \<rightharpoonup> workflow_metadata) i = Some (W i) \<and>
            set (subworkflow_ids (W i)) \<subseteq> set ([] @ ?init)" by simp
    show "fst ` set (workflow_cache ?p1) \<subseteq> (\<lambda>i. (sid, i, ws, ns)) ` set []" by simp
    show "requests ?p1 = [(Get_submission ns ws sid, True)] @
            map (\<lambda>i. (Get_workflow_metadata ns ws sid i, True)) []" by simp
    show "card R < fuel + length ([] :: json list)" using assms(6) by simp
  qed
  then obtain meta' p' order where
      run: "expand_frontier fuel (get_metadata_and_subworkflows S sid ws ns) ?init ?init
              (Map.empty, ?p1) = Some (Inr (), meta', p')"
    and res: "dom meta' = R" "\<forall>i \<in> R. meta' i = Some (W i)" "distinct order" "set order = R"
      "requests p' = (Get_submission ns ws sid, True) #
             map (\<lambda>i. (Get_workflow_metadata ns ws sid i, True)) order"
    by auto
  have "get_all_workflows S fuel sid ws ns new_process = Some (Inr meta', p')"
    by (simp add: get_all_workflows_def get_submission_first [OF assms(1)] ps
        concurrent_recursion_def remdups_remdups run)
  with res show ?thesis by blast
qed

text \<open>
  The example: the initial workflows A and B (and an entry without identifier), A with a
  call that refers to the sub-workflow C, C with one that refers to D.
\<close>

lemma sample_reachable:
  "reachable_workflows sample_workflows sample_submission =
   {JStr ''A'', JStr ''B'', JStr ''C'', JStr ''D''}"
proof
  let ?V = "{JStr ''A'', JStr ''B'', JStr ''C'', JStr ''D''}"
  have ids: "workflow_ids sample_submission = [JStr ''A'', JStr ''B'']"
    by (simp add: workflow_ids_def sample_submission_def)
  have "set (workflow_ids sample_submission) \<subseteq> ?V" by (simp add: ids)
  moreover have "\<forall>i \<in> ?V. set (subworkflow_ids (sample_workflows i)) \<subseteq> ?V"
    by (simp add: subworkflow_ids_def sample_workflows_def cached_call_def)
  ultimately show "reachable_workflows sample_workflows sample_submission \<subseteq> ?V"
    unfolding reachable_workflows_def by (rule closed_contains_reachable)
  let ?R = "(references sample_workflows)\<^sup>* `` set (workflow_ids sample_submission)"
  have a: "JStr ''A'' \<in> ?R" and b: "JStr ''B'' \<in> ?R" by (auto simp: ids)
  have "JStr ''C'' \<in> set (subworkflow_ids (sample_workflows (JStr ''A'')))"
    by (simp add: subworkflow_ids_def sample_workflows_def)
  with a have c: "JStr ''C'' \<in> ?R" by (rule references_step)
  have "JStr ''D'' \<in> set (subworkflow_ids (sample_workflows (JStr ''C'')))"
    by (simp add: subworkflow_ids_def sample_workflows_def cached_call_def)
  with c have d: "JStr ''D'' \<in> ?R" by (rule references_step)
  from a b c d show "?V \<subseteq> reachable_workflows sample_workflows sample_submission"
    by (simp add: reachable_workflows_def)
qed

theorem get_all_workflows_finds_reachable_witness:
  "\<exists>meta p. get_all_workflows nested_service 5 ''s1'' None None new_process = Some (Inr meta, p) \<and>
     dom meta = {JStr ''A'', JStr ''B'', JStr ''C'', JStr ''D''} \<and>
     meta (JStr ''D'') = Some (sample_workflows (JStr ''D'')) \<and>
     length (requests p) = 5"
proof -
  let ?R = "{JStr ''A'', JStr ''B'', JStr ''C'', JStr ''D''}"
  have h1: "submission_response nested_service 0 None None ''s1'' = Some sample_submission"
    by (simp add: nested_service_def)
  have h2: "?R = reachable_workflows sample_workflows sample_submission"
    by (rule sample_reachable [symmetric])
  have h3: "finite ?R" by simp
  have h4: "\<forall>i \<in> ?R. \<exists>s. i = JStr s" by simp
  have h5: "\<forall>i \<in> ?R. \<forall>t. workflow_response nested_service t None None ''s1'' i =
              Some (sample_workflows i)"
    by (simp add: nested_service_def)
  have c4: "card ?R = 4" by simp
  then have h6: "card ?R < 5" by simp
  have "\<exists>meta p order.
           get_all_workflows nested_service 5 ''s1'' None None new_process = Some (Inr meta, p) \<and>
           dom meta = ?R \<and> (\<forall>i \<in> ?R. meta i = Some (sample_workflows i)) \<and>
           distinct order \<and> set order = ?R \<and>
           requests p = (Get_submission None None ''s1'', True) #
             map (\<lambda>i. (Get_workflow_metadata None None ''s1'' i, True)) order"
    by (rule get_all_workflows_finds_reachable [OF h1 h2 h3 h4 h5 h6])
  then show ?thesis
  proof (elim exE conjE)
    fix meta p order
    assume run: "get_all_workflows nested_service 5 ''s1'' None None new_process = Some (Inr meta, p)"
      and d: "dom meta = ?R" and m: "\<forall>i \<in> ?R. meta i = Some (sample_workflows i)"
      and o1: "distinct order" and o2: "set order = ?R"
      and r: "requests p = (Get_submission None None ''s1'', True) #
             map (\<lambda>i. (Get_workflow_metadata None None ''s1'' i, True)) order"
    from o1 have "card (set order) = length order" by (rule distinct_card)
    with o2 c4 have "length order = 4" by simp
    with r have l: "length (requests p) = 5" by simp
    from m have md: "meta (JStr ''D'') = Some (sample_workflows (JStr ''D''))" by simp
    from run d md l show ?thesis by (intro exI conjI)
  qed
qed

end
